theory Spec2Isabelle
  imports Complex_Main "HOL-Library.Multiset"
begin

section \<open>Structs\<close>

text \<open>
  The two failures of the program: a failed \<^verbatim>\<open>assert\<close> of check-types, and the
  \<^verbatim>\<open>TypeError\<close> of calling a method on \<^verbatim>\<open>null\<close> or \<^verbatim>\<open>undefined\<close>.
\<close>

datatype error = AssertionError | TypeError

text \<open>
  JavaScript numbers are idealised as real numbers: sums, halves and comparisons are exact.
  What is kept of the doubles is their range: a result whose exact value reaches
  \<open>2 ^ 1024 - 2 ^ 970\<close> in magnitude is an infinity in the program.
\<close>

definition overflow_limit :: real where
  "overflow_limit = 2 ^ 1024 - 2 ^ 970"

text \<open>
  Modelled from the spec: \<^verbatim>\<open>assert.number\<close> belongs to the check-types library, which is
  not among the sources. Positions are finite numbers: the assertion holds of a number
  that is not an infinity (a \<^verbatim>\<open>NaN\<close> has no counterpart among the reals).
\<close>

definition is_number :: "real \<Rightarrow> bool" where
  "is_number v \<longleftrightarrow> \<bar>v\<bar> < overflow_limit"

text \<open>
  \<^verbatim>\<open>structs/position.js\<close> and \<^verbatim>\<open>structs/boundary.js\<close>: a position is a map with the keys
  \<^verbatim>\<open>x\<close> and \<^verbatim>\<open>y\<close>, a boundary merges a \<^verbatim>\<open>{width, height}\<close> map with a position.
  \<^verbatim>\<open>boundary\<close> asserts that the width and the height are numbers, then \<^verbatim>\<open>position\<close>
  asserts it of \<^verbatim>\<open>x\<close> and \<^verbatim>\<open>y\<close>.
\<close>

record position =
  pos_x :: real
  pos_y :: real

record boundary = position +
  width :: real
  height :: real

definition position :: "real \<Rightarrow> real \<Rightarrow> error + position" where
  "position x y =
     (if \<not> is_number x then Inl AssertionError
      else if \<not> is_number y then Inl AssertionError
      else Inr \<lparr>pos_x = x, pos_y = y\<rparr>)"

definition boundary :: "real \<Rightarrow> real \<Rightarrow> real \<Rightarrow> real \<Rightarrow> error + boundary" where
  "boundary x y w h =
     (if \<not> is_number w then Inl AssertionError
      else if \<not> is_number h then Inl AssertionError
      else case position x y of
             Inl e \<Rightarrow> Inl e
           | Inr p \<Rightarrow> Inr \<lparr>pos_x = pos_x p, pos_y = pos_y p, width = w, height = h\<rparr>)"

text \<open>\<open>rect x y w h\<close> is the value that \<^verbatim>\<open>boundary(x, y, w, h)\<close> returns when it returns.\<close>

abbreviation rect :: "real \<Rightarrow> real \<Rightarrow> real \<Rightarrow> real \<Rightarrow> boundary" where
  "rect x y w h \<equiv> \<lparr>pos_x = x, pos_y = y, width = w, height = h\<rparr>"

text \<open>
  The \<^verbatim>\<open>quadrants\<close> map of a node has the four keys \<^verbatim>\<open>top-left\<close>, \<^verbatim>\<open>top-right\<close>,
  \<^verbatim>\<open>bottom-left\<close> and \<^verbatim>\<open>bottom-right\<close>, each holding \<^verbatim>\<open>null\<close> or a node.
\<close>

datatype 'a quads = Quads
  (top_left: "'a option") (top_right: "'a option")
  (bottom_left: "'a option") (bottom_right: "'a option")

datatype node = Node
  (node_boundary: boundary) (maxChildren: int) (maxDepth: int) (depth: int)
  (quadrants: "node quads") (children: "boundary list")
  (overlappingChildren: "boundary list")

text \<open>\<^verbatim>\<open>q.get(key)\<close>: a key that is not in the map gives \<^verbatim>\<open>undefined\<close>, here \<open>None\<close>.\<close>

definition qget :: "'a quads \<Rightarrow> string \<Rightarrow> 'a option" where
  "qget q key =
     (if key = ''top-left'' then top_left q
      else if key = ''top-right'' then top_right q
      else if key = ''bottom-left'' then bottom_left q
      else if key = ''bottom-right'' then bottom_right q
      else None)"

text \<open>\<^verbatim>\<open>q.set(key, v)\<close> and \<^verbatim>\<open>q.update(key, f)\<close> on one of the four keys of the map. The
  program sets no other key: \<^verbatim>\<open>split\<close> and \<^verbatim>\<open>clear\<close> name the four keys, and \<^verbatim>\<open>insert\<close>
  updates a key only after it has found a node under it.\<close>

definition qset :: "'a quads \<Rightarrow> string \<Rightarrow> 'a option \<Rightarrow> 'a quads" where
  "qset q key v =
     (if key = ''top-left'' then Quads v (top_right q) (bottom_left q) (bottom_right q)
      else if key = ''top-right'' then Quads (top_left q) v (bottom_left q) (bottom_right q)
      else if key = ''bottom-left'' then Quads (top_left q) (top_right q) v (bottom_right q)
      else if key = ''bottom-right'' then Quads (top_left q) (top_right q) (bottom_left q) v
      else q)"

text \<open>\<^verbatim>\<open>n.update('quadrants', f)\<close>, \<^verbatim>\<open>n.update('children', f)\<close> and
  \<^verbatim>\<open>n.update('overlappingChildren', f)\<close>.\<close>

definition update_quadrants :: "(node quads \<Rightarrow> node quads) \<Rightarrow> node \<Rightarrow> node" where
  "update_quadrants f n =
     Node (node_boundary n) (maxChildren n) (maxDepth n) (depth n)
       (f (quadrants n)) (children n) (overlappingChildren n)"

definition update_children :: "(boundary list \<Rightarrow> boundary list) \<Rightarrow> node \<Rightarrow> node" where
  "update_children f n =
     Node (node_boundary n) (maxChildren n) (maxDepth n) (depth n)
       (quadrants n) (f (children n)) (overlappingChildren n)"

definition update_overlappingChildren ::
  "(boundary list \<Rightarrow> boundary list) \<Rightarrow> node \<Rightarrow> node" where
  "update_overlappingChildren f n =
     Node (node_boundary n) (maxChildren n) (maxDepth n) (depth n)
       (quadrants n) (children n) (f (overlappingChildren n))"

text \<open>
  \<^verbatim>\<open>structs/node.js\<close>: the constructor asserts \<^verbatim>\<open>maxChildren > 0\<close>, \<^verbatim>\<open>maxDepth > 0\<close> and
  \<^verbatim>\<open>depth >= 0\<close> (that the three are integers and that the boundary has its four keys
  is in the types), and returns a node with four \<^verbatim>\<open>null\<close> quadrants and two empty lists.
\<close>

definition node :: "boundary \<Rightarrow> int \<Rightarrow> int \<Rightarrow> int \<Rightarrow> error + node" where
  "node b mc md d =
     (if \<not> mc > 0 then Inl AssertionError
      else if \<not> md > 0 then Inl AssertionError
      else if \<not> d \<ge> 0 then Inl AssertionError
      else Inr (Node b mc md d (Quads None None None None) [] []))"

section \<open>Module Boundary\<close>

definition within_bound :: "boundary \<Rightarrow> boundary \<Rightarrow> bool" where
  "within_bound bound item \<longleftrightarrow>
     pos_x item \<ge> pos_x bound \<and>
     pos_x item + width item \<le> pos_x bound + width bound \<and>
     pos_y item \<ge> pos_y bound \<and>
     pos_y item + height item \<le> pos_y bound + height bound"

definition intersects :: "boundary \<Rightarrow> boundary \<Rightarrow> bool" where
  "intersects bound1 bound2 \<longleftrightarrow>
     pos_x bound1 < pos_x bound2 + width bound2 \<and>
     pos_x bound1 + width bound1 > pos_x bound2 \<and>
     pos_y bound1 < pos_y bound2 + height bound2 \<and>
     pos_y bound1 + height bound1 > pos_y bound2"

section \<open>Module Node\<close>

definition addChild :: "node \<Rightarrow> boundary \<Rightarrow> node" where
  "addChild n item = update_children (\<lambda>l. l @ [item]) n"

definition addOverlappingChild :: "node \<Rightarrow> boundary \<Rightarrow> node" where
  "addOverlappingChild n item = update_overlappingChildren (\<lambda>l. l @ [item]) n"

text \<open>
  \<^verbatim>\<open>split\<close> builds the four sub-nodes with
  \<^verbatim>\<open>node(boundary(x, y, halfheight, halfwidth), maxChildren, maxDepth, depth)\<close>: the third
  parameter of \<^verbatim>\<open>boundary\<close> is the width, the fourth the height. A failed assertion of
  \<^verbatim>\<open>boundary\<close>, which a mid-point beyond the range of the numbers causes, or of the
  \<^verbatim>\<open>node\<close> constructor aborts the whole call.
\<close>

definition split :: "node \<Rightarrow> error + node" where
  "split n =
     (let x = pos_x (node_boundary n); y = pos_y (node_boundary n);
          w = width (node_boundary n); h = height (node_boundary n);
          halfwidth = w / 2; halfheight = h / 2;
          hmid = x + halfwidth; vmid = y + halfheight;
          d = depth n + 1
      in case boundary x y halfheight halfwidth of
           Inl e \<Rightarrow> Inl e
         | Inr b1 \<Rightarrow>
       (case node b1 (maxChildren n) (maxDepth n) d of
           Inl e \<Rightarrow> Inl e
         | Inr qtl \<Rightarrow>
       (case boundary hmid y halfheight halfwidth of
           Inl e \<Rightarrow> Inl e
         | Inr b2 \<Rightarrow>
       (case node b2 (maxChildren n) (maxDepth n) d of
           Inl e \<Rightarrow> Inl e
         | Inr qtr \<Rightarrow>
       (case boundary x vmid halfheight halfwidth of
           Inl e \<Rightarrow> Inl e
         | Inr b3 \<Rightarrow>
       (case node b3 (maxChildren n) (maxDepth n) d of
           Inl e \<Rightarrow> Inl e
         | Inr qbl \<Rightarrow>
       (case boundary hmid vmid halfheight halfwidth of
           Inl e \<Rightarrow> Inl e
         | Inr b4 \<Rightarrow>
       (case node b4 (maxChildren n) (maxDepth n) d of
           Inl e \<Rightarrow> Inl e
         | Inr qbr \<Rightarrow>
           Inr (update_quadrants
                  (\<lambda>q. qset (qset (qset (qset q ''top-left'' (Some qtl))
                                 ''top-right'' (Some qtr))
                                 ''bottom-left'' (Some qbl))
                                 ''bottom-right'' (Some qbr)) n)))))))))"

definition isLeaf :: "node \<Rightarrow> bool" where
  "isLeaf n \<longleftrightarrow> qget (quadrants n) ''top-left'' = None"

definition isSplittable :: "node \<Rightarrow> bool" where
  "isSplittable n \<longleftrightarrow>
     (let len = int (length (children n))
      in len > maxChildren n \<and> depth n < maxDepth n)"

section \<open>Module Quadtree\<close>

text \<open>\<^verbatim>\<open>create(boundary, maxChildren = 4, maxDepth = 4)\<close>; the defaults are
  \<open>create_default\<close>.\<close>

definition create :: "boundary \<Rightarrow> int \<Rightarrow> int \<Rightarrow> error + node" where
  "create b mc md = node b mc md 0"

definition create_default :: "boundary \<Rightarrow> error + node" where
  "create_default b = create b 4 4"

definition determineQuadrant :: "node \<Rightarrow> boundary \<Rightarrow> string" where
  "determineQuadrant n item =
     (let b = node_boundary n;
          right = pos_x item > pos_x b + width b / 2;
          left = \<not> right;
          bottom = pos_y item > pos_y b + height b / 2;
          top = \<not> bottom
      in if top \<and> left then ''top-left''
         else if top \<and> right then ''top-right''
         else if bottom \<and> left then ''bottom-left''
         else if bottom \<and> right then ''bottom-right''
         else '''')"

text \<open>
  \<^verbatim>\<open>insert\<close>. Looking up a quadrant that is \<^verbatim>\<open>null\<close> (or a key that is not in
  the map) and reading its boundary is a \<^verbatim>\<open>TypeError\<close>. The
  \<^verbatim>\<open>children.reduce((acc, i) => insert(acc, i), splitNode)\<close> of the split case is
  \<open>insert_reduce\<close>; an exception inside it aborts the whole call.
\<close>

function insert_item :: "node \<Rightarrow> boundary \<Rightarrow> error + node"
  and insert_reduce :: "node \<Rightarrow> boundary list \<Rightarrow> error + node" where
  "insert_item n item =
     (if \<not> isLeaf n then
        (let direction = determineQuadrant n item in
         case qget (quadrants n) direction of
           None \<Rightarrow> Inl TypeError
         | Some quadrant \<Rightarrow>
             if within_bound (node_boundary quadrant) item then
               (case insert_item quadrant item of
                  Inl e \<Rightarrow> Inl e
                | Inr d \<Rightarrow>
                    Inr (update_quadrants (\<lambda>q. qset q direction (Some d)) n))
             else Inr (addOverlappingChild n item))
      else
        (let updatedNode = addChild n item in
         if \<not> isSplittable updatedNode then Inr updatedNode
         else
           case split updatedNode of
             Inl e \<Rightarrow> Inl e
           | Inr splitNode \<Rightarrow>
               (let children = children splitNode in
                case insert_reduce splitNode children of
                  Inl e \<Rightarrow> Inl e
                | Inr r \<Rightarrow> Inr (update_children (\<lambda>l. []) r))))"
| "insert_reduce acc [] = Inr acc"
| "insert_reduce acc (i # items) =
     (case insert_item acc i of
        Inl e \<Rightarrow> Inl e
      | Inr acc' \<Rightarrow> insert_reduce acc' items)"
  by pat_completeness auto

text \<open>
  \<^verbatim>\<open>batchInsert(n, items)\<close> is \<^verbatim>\<open>items.reduce((acc, item) => insert(acc, item), n)\<close>.
\<close>

fun batchInsert :: "node \<Rightarrow> boundary list \<Rightarrow> error + node" where
  "batchInsert n [] = Inr n"
| "batchInsert n (item # items) =
     (case insert_item n item of
        Inl e \<Rightarrow> Inl e
      | Inr acc \<Rightarrow> batchInsert acc items)"

text \<open>
  The specification's reading of \<^verbatim>\<open>batchInsert\<close>: one call of \<^verbatim>\<open>insert\<close> per item, in
  order, each on the node the call before returned; after a failed call nothing more is
  done.
\<close>

definition insert_after :: "error + node \<Rightarrow> boundary \<Rightarrow> error + node" where
  "insert_after r item = (case r of Inl e \<Rightarrow> Inl e | Inr n \<Rightarrow> insert_item n item)"

definition sequential_inserts :: "node \<Rightarrow> boundary list \<Rightarrow> error + node" where
  "sequential_inserts n items = foldl insert_after (Inr n) items"

text \<open>
  \<^verbatim>\<open>search\<close>: a quadrant that is \<^verbatim>\<open>null\<close> makes the recursive call fail on
  \<^verbatim>\<open>n.has\<close>, a \<^verbatim>\<open>TypeError\<close>.
\<close>

fun search :: "node \<Rightarrow> boundary \<Rightarrow> error + boundary list" where
  "search (Node b mc md d (Quads qtl qtr qbl qbr) ch oc) item =
     (if \<not> intersects b item then Inr []
      else
        let points = filter (\<lambda>x. intersects item x) (ch @ oc)
        in if isLeaf (Node b mc md d (Quads qtl qtr qbl qbr) ch oc) then Inr points
           else
             case (case qtl of None \<Rightarrow> Inl TypeError | Some c \<Rightarrow> search c item) of
               Inl e \<Rightarrow> Inl e
             | Inr r1 \<Rightarrow>
            (case (case qtr of None \<Rightarrow> Inl TypeError | Some c \<Rightarrow> search c item) of
               Inl e \<Rightarrow> Inl e
             | Inr r2 \<Rightarrow>
            (case (case qbl of None \<Rightarrow> Inl TypeError | Some c \<Rightarrow> search c item) of
               Inl e \<Rightarrow> Inl e
             | Inr r3 \<Rightarrow>
            (case (case qbr of None \<Rightarrow> Inl TypeError | Some c \<Rightarrow> search c item) of
               Inl e \<Rightarrow> Inl e
             | Inr r4 \<Rightarrow> Inr (points @ r1 @ r2 @ r3 @ r4)))))"

text \<open>
  \<^verbatim>\<open>Quadtree.clear\<close> maps \<^verbatim>\<open>null\<close> to \<^verbatim>\<open>null\<close>; on a node it empties the two lists,
  clears the four quadrants recursively and then sets the four of them to \<^verbatim>\<open>null\<close>.
\<close>

fun clear :: "node option \<Rightarrow> node option" where
  "clear None = None"
| "clear (Some (Node b mc md d (Quads qtl qtr qbl qbr) ch oc)) =
     Some (update_quadrants
       (\<lambda>q. qset (qset (qset (qset
                (Quads (clear qtl) (clear qtr) (clear qbl) (clear qbr))
                ''top-left'' None) ''top-right'' None) ''bottom-left'' None)
                ''bottom-right'' None)
       (update_overlappingChildren (\<lambda>l. [])
         (update_children (\<lambda>l. []) (Node b mc md d (Quads qtl qtr qbl qbr) ch oc))))"

text \<open>
  \<^verbatim>\<open>Node.clear\<close> of the Node module: on a node that is not a leaf it clears the four
  quadrants and then sets them to \<^verbatim>\<open>null\<close>; a quadrant that is \<^verbatim>\<open>null\<close> makes the
  recursive call fail in \<^verbatim>\<open>isLeaf\<close>. Then it empties the two lists.
\<close>

fun Node_clear :: "node \<Rightarrow> error + node" where
  "Node_clear (Node b mc md d (Quads qtl qtr qbl qbr) ch oc) =
     (let n = Node b mc md d (Quads qtl qtr qbl qbr) ch oc;
          clearLists = (\<lambda>removedNodes.
            update_overlappingChildren (\<lambda>l. []) (update_children (\<lambda>l. []) removedNodes))
      in if \<not> isLeaf n then
           case (case qtl of None \<Rightarrow> Inl TypeError | Some c \<Rightarrow> Node_clear c) of
             Inl e \<Rightarrow> Inl e
           | Inr c1 \<Rightarrow>
          (case (case qtr of None \<Rightarrow> Inl TypeError | Some c \<Rightarrow> Node_clear c) of
             Inl e \<Rightarrow> Inl e
           | Inr c2 \<Rightarrow>
          (case (case qbl of None \<Rightarrow> Inl TypeError | Some c \<Rightarrow> Node_clear c) of
             Inl e \<Rightarrow> Inl e
           | Inr c3 \<Rightarrow>
          (case (case qbr of None \<Rightarrow> Inl TypeError | Some c \<Rightarrow> Node_clear c) of
             Inl e \<Rightarrow> Inl e
           | Inr c4 \<Rightarrow>
               Inr (clearLists
                 (update_quadrants (\<lambda>q. Quads None None None None)
                   (update_quadrants
                     (\<lambda>q. Quads (Some c1) (Some c2) (Some c3) (Some c4)) n))))))
         else Inr (clearLists n))"

section \<open>Trees built through the interface\<close>

text \<open>
  The calls of the interface that return a tree. \<^verbatim>\<open>clear\<close> of a node is a node, never
  \<^verbatim>\<open>null\<close>; were it \<^verbatim>\<open>null\<close>, the next call would fail on it.
\<close>

datatype call = Insert boundary | BatchInsert "boundary list" | Clear

fun api_call :: "node \<Rightarrow> call \<Rightarrow> error + node" where
  "api_call t (Insert item) = insert_item t item"
| "api_call t (BatchInsert items) = batchInsert t items"
| "api_call t Clear = (case clear (Some t) of None \<Rightarrow> Inl TypeError | Some t' \<Rightarrow> Inr t')"

fun api_calls :: "node \<Rightarrow> call list \<Rightarrow> error + node" where
  "api_calls t [] = Inr t"
| "api_calls t (c # cs) =
     (case api_call t c of Inl e \<Rightarrow> Inl e | Inr t' \<Rightarrow> api_calls t' cs)"

text \<open>A tree built by \<^verbatim>\<open>create\<close> followed by a sequence of calls.\<close>

definition build :: "boundary \<Rightarrow> int \<Rightarrow> int \<Rightarrow> call list \<Rightarrow> error + node" where
  "build b mc md cs =
     (case create b mc md of Inl e \<Rightarrow> Inl e | Inr t \<Rightarrow> api_calls t cs)"

text \<open>The items a sequence of calls has put into the tree: those inserted since the
  last \<^verbatim>\<open>clear\<close>, in the order of insertion, starting from the items \<open>acc\<close>.\<close>

fun stored_from :: "boundary list \<Rightarrow> call list \<Rightarrow> boundary list" where
  "stored_from acc [] = acc"
| "stored_from acc (Insert item # cs) = stored_from (acc @ [item]) cs"
| "stored_from acc (BatchInsert items # cs) = stored_from (acc @ items) cs"
| "stored_from acc (Clear # cs) = stored_from [] cs"

definition stored :: "call list \<Rightarrow> boundary list" where
  "stored cs = stored_from [] cs"

section \<open>Sample trees\<close>

text \<open>
  Concrete nodes on which the theorems below are instantiated: the root that \<^verbatim>\<open>create\<close>
  returns for the boundary \<open>(0, 0, 200, 100)\<close>, a leaf with two items, the node that
  \<^verbatim>\<open>split\<close> makes of this leaf, and that node after \<^verbatim>\<open>insert\<close> of \<open>(10, 20, 3, 3)\<close>.
\<close>

definition sample_root :: node where
  "sample_root = Node (rect 0 0 200 100) 4 4 0 (Quads None None None None) [] []"

definition sample_leaf :: node where
  "sample_leaf =
     Node (rect 0 0 200 100) 4 4 0 (Quads None None None None)
       [rect 5 6 1 2] [rect 99 0 5 2]"

definition sample_split :: node where
  "sample_split =
     Node (rect 0 0 200 100) 4 4 0
       (Quads
         (Some (Node (rect 0 0 50 100) 4 4 1 (Quads None None None None) [] []))
         (Some (Node (rect 100 0 50 100) 4 4 1 (Quads None None None None) [] []))
         (Some (Node (rect 0 50 50 100) 4 4 1 (Quads None None None None) [] []))
         (Some (Node (rect 100 50 50 100) 4 4 1 (Quads None None None None) [] [])))
       [rect 5 6 1 2] [rect 99 0 5 2]"

definition sample_inserted :: node where
  "sample_inserted =
     Node (rect 0 0 200 100) 4 4 0
       (Quads
         (Some (Node (rect 0 0 50 100) 4 4 1 (Quads None None None None)
            [rect 10 20 3 3] []))
         (Some (Node (rect 100 0 50 100) 4 4 1 (Quads None None None None) [] []))
         (Some (Node (rect 0 50 50 100) 4 4 1 (Quads None None None None) [] []))
         (Some (Node (rect 100 50 50 100) 4 4 1 (Quads None None None None) [] [])))
       [rect 5 6 1 2] [rect 99 0 5 2]"

text \<open>
  The tree built with \<open>maxChildren = 1\<close> and \<open>maxDepth = 1\<close> from three items of the
  top-left quadrant, and its top-left leaf, which is at the maximal depth and holds the
  three items.
\<close>

definition sample_deep_leaf :: node where
  "sample_deep_leaf =
     Node (rect 0 0 100 100) 1 1 1 (Quads None None None None)
       [rect 5 6 1 2, rect 67 24 1 1, rect 10 10 1 1] []"

definition sample_full :: node where
  "sample_full =
     Node (rect 0 0 200 200) 1 1 0
       (Quads
         (Some sample_deep_leaf)
         (Some (Node (rect 100 0 100 100) 1 1 1 (Quads None None None None) [] []))
         (Some (Node (rect 0 100 100 100) 1 1 1 (Quads None None None None) [] []))
         (Some (Node (rect 100 100 100 100) 1 1 1 (Quads None None None None) [] [])))
       [] []"

section \<open>Invariants\<close>

text \<open>
  A well-formed tree: every node satisfies the assertions of the constructor and has a
  depth of at most \<open>maxDepth\<close>; its four quadrants are all \<^verbatim>\<open>null\<close> or all nodes, and
  then each of them is one level deeper, with the thresholds of its parent.
\<close>

definition child_params :: "int \<Rightarrow> int \<Rightarrow> int \<Rightarrow> node \<Rightarrow> bool" where
  "child_params mc md d c \<longleftrightarrow> maxChildren c = mc \<and> maxDepth c = md \<and> depth c = d + 1"

fun well_formed :: "node \<Rightarrow> bool" where
  "well_formed (Node b mc md d (Quads qtl qtr qbl qbr) ch oc) =
     (mc > 0 \<and> md > 0 \<and> 0 \<le> d \<and> d \<le> md \<and>
      (case qtl of
         None \<Rightarrow> qtr = None \<and> qbl = None \<and> qbr = None
       | Some c1 \<Rightarrow>
      (case qtr of
         None \<Rightarrow> False
       | Some c2 \<Rightarrow>
      (case qbl of
         None \<Rightarrow> False
       | Some c3 \<Rightarrow>
      (case qbr of
         None \<Rightarrow> False
       | Some c4 \<Rightarrow>
           well_formed c1 \<and> well_formed c2 \<and> well_formed c3 \<and> well_formed c4 \<and>
           child_params mc md d c1 \<and> child_params mc md d c2 \<and>
           child_params mc md d c3 \<and> child_params mc md d c4)))))"

text \<open>All the items stored in a tree, with their multiplicities.\<close>

fun items_of :: "node \<Rightarrow> boundary multiset" where
  "items_of (Node b mc md d (Quads qtl qtr qbl qbr) ch oc) =
     mset ch + mset oc +
     (case qtl of None \<Rightarrow> {#} | Some c \<Rightarrow> items_of c) +
     (case qtr of None \<Rightarrow> {#} | Some c \<Rightarrow> items_of c) +
     (case qbl of None \<Rightarrow> {#} | Some c \<Rightarrow> items_of c) +
     (case qbr of None \<Rightarrow> {#} | Some c \<Rightarrow> items_of c)"

text \<open>Every item stored in or below a node lies within the boundary of that node.\<close>

fun items_inside :: "node \<Rightarrow> bool" where
  "items_inside (Node b mc md d (Quads qtl qtr qbl qbr) ch oc) =
     ((\<forall>i \<in># items_of (Node b mc md d (Quads qtl qtr qbl qbr) ch oc). within_bound b i) \<and>
      (case qtl of None \<Rightarrow> True | Some c \<Rightarrow> items_inside c) \<and>
      (case qtr of None \<Rightarrow> True | Some c \<Rightarrow> items_inside c) \<and>
      (case qbl of None \<Rightarrow> True | Some c \<Rightarrow> items_inside c) \<and>
      (case qbr of None \<Rightarrow> True | Some c \<Rightarrow> items_inside c))"

text \<open>The same of the four quadrants of a node: only the items that the node itself
  stores may reach out of its boundary.\<close>

definition quads_inside :: "node \<Rightarrow> bool" where
  "quads_inside n \<longleftrightarrow>
     (case top_left (quadrants n) of None \<Rightarrow> True | Some c \<Rightarrow> items_inside c) \<and>
     (case top_right (quadrants n) of None \<Rightarrow> True | Some c \<Rightarrow> items_inside c) \<and>
     (case bottom_left (quadrants n) of None \<Rightarrow> True | Some c \<Rightarrow> items_inside c) \<and>
     (case bottom_right (quadrants n) of None \<Rightarrow> True | Some c \<Rightarrow> items_inside c)"

text \<open>
  The numbers that \<^verbatim>\<open>split\<close> passes to \<^verbatim>\<open>boundary\<close> for a node with the boundary \<open>b\<close> are
  all in range: no half and no mid-point is an infinity.
\<close>

definition split_in_range :: "boundary \<Rightarrow> bool" where
  "split_in_range b \<longleftrightarrow>
     is_number (height b / 2) \<and> is_number (width b / 2) \<and>
     is_number (pos_x b) \<and> is_number (pos_y b) \<and>
     is_number (pos_x b + width b / 2) \<and> is_number (pos_y b + height b / 2)"

text \<open>
  A bound on a boundary that is inherited by the four boundaries \<^verbatim>\<open>split\<close> makes of it,
  and under which \<^verbatim>\<open>split\<close> stays in range: no split at any depth below a node with such
  a boundary overflows.
\<close>

definition fits :: "boundary \<Rightarrow> bool" where
  "fits b \<longleftrightarrow>
     \<bar>pos_x b\<bar> + \<bar>width b\<bar> + \<bar>height b\<bar> < overflow_limit \<and>
     \<bar>pos_y b\<bar> + \<bar>width b\<bar> + \<bar>height b\<bar> < overflow_limit"

fun all_fit :: "node \<Rightarrow> bool" where
  "all_fit (Node b mc md d (Quads qtl qtr qbl qbr) ch oc) =
     (fits b \<and>
      (case qtl of None \<Rightarrow> True | Some c \<Rightarrow> all_fit c) \<and>
      (case qtr of None \<Rightarrow> True | Some c \<Rightarrow> all_fit c) \<and>
      (case qbl of None \<Rightarrow> True | Some c \<Rightarrow> all_fit c) \<and>
      (case qbr of None \<Rightarrow> True | Some c \<Rightarrow> all_fit c))"

text \<open>Two nodes with the same boundary, thresholds and depth.\<close>

definition same_frame :: "node \<Rightarrow> node \<Rightarrow> bool" where
  "same_frame n n' \<longleftrightarrow>
     node_boundary n' = node_boundary n \<and> maxChildren n' = maxChildren n \<and>
     maxDepth n' = maxDepth n \<and> depth n' = depth n"

text \<open>
  A tree \<open>t\<close> at depth \<open>0\<close> that holds the items \<open>acc\<close>: it is well formed, its items are
  those of \<open>acc\<close>, and every item below the root lies within the boundary of the node
  that stores it.
\<close>

definition tracks :: "node \<Rightarrow> boundary list \<Rightarrow> bool" where
  "tracks t acc \<longleftrightarrow>
     well_formed t \<and> depth t = 0 \<and> items_of t = mset acc \<and> quads_inside t"

text \<open>The nodes of a tree, the root first.\<close>

fun nodes_of :: "node \<Rightarrow> node list" where
  "nodes_of (Node b mc md d (Quads qtl qtr qbl qbr) ch oc) =
     Node b mc md d (Quads qtl qtr qbl qbr) ch oc #
     (case qtl of None \<Rightarrow> [] | Some c \<Rightarrow> nodes_of c) @
     (case qtr of None \<Rightarrow> [] | Some c \<Rightarrow> nodes_of c) @
     (case qbl of None \<Rightarrow> [] | Some c \<Rightarrow> nodes_of c) @
     (case qbr of None \<Rightarrow> [] | Some c \<Rightarrow> nodes_of c)"

text \<open>The number of levels below a node: how deep \<^verbatim>\<open>search\<close> and \<^verbatim>\<open>clear\<close> recurse.\<close>

fun height_of :: "node \<Rightarrow> nat" where
  "height_of (Node b mc md d (Quads qtl qtr qbl qbr) ch oc) =
     max (max (case qtl of None \<Rightarrow> 0 | Some c \<Rightarrow> Suc (height_of c))
              (case qtr of None \<Rightarrow> 0 | Some c \<Rightarrow> Suc (height_of c)))
         (max (case qbl of None \<Rightarrow> 0 | Some c \<Rightarrow> Suc (height_of c))
              (case qbr of None \<Rightarrow> 0 | Some c \<Rightarrow> Suc (height_of c)))"

text \<open>
  What a call that adds the items \<open>added\<close> to a well-formed node \<open>n\<close> keeps: the result is
  well formed, in the frame of \<open>n\<close>, still split if \<open>n\<close> was, and holds the items of
  \<open>n\<close> and the added ones; the items below it stay within their nodes, and its
  boundaries stay within the bound.
\<close>

definition step_ok :: "node \<Rightarrow> boundary multiset \<Rightarrow> node \<Rightarrow> bool" where
  "step_ok n added n' \<longleftrightarrow>
     well_formed n' \<and> same_frame n n' \<and>
     (\<not> isLeaf n \<longrightarrow> \<not> isLeaf n' \<and> children n' = children n) \<and>
     items_of n' = items_of n + added \<and>
     (quads_inside n \<longrightarrow> quads_inside n') \<and>
     (all_fit n \<longrightarrow> all_fit n')"

text \<open>
  The outcome of a call on a well-formed node: a tree as above, or a failed assertion,
  and this only when some boundary of the node is beyond the bound.
\<close>

definition outcome_ok :: "node \<Rightarrow> boundary multiset \<Rightarrow> error + node \<Rightarrow> bool" where
  "outcome_ok n added r \<longleftrightarrow>
     (case r of
        Inl e \<Rightarrow> e = AssertionError \<and> \<not> all_fit n
      | Inr n' \<Rightarrow> step_ok n added n')"

text \<open>
  The number of levels a node can still grow below itself: a leaf can be split while its
  depth is below \<open>maxDepth\<close>; a split node has the levels of its deepest quadrant.
\<close>

fun levels_left :: "node \<Rightarrow> nat" where
  "levels_left (Node b mc md d (Quads qtl qtr qbl qbr) ch oc) =
     (case qtl of
        None \<Rightarrow> nat (md - d)
      | Some c \<Rightarrow>
          Suc (max (max (levels_left c)
                        (case qtr of None \<Rightarrow> 0 | Some c2 \<Rightarrow> levels_left c2))
                   (max (case qbl of None \<Rightarrow> 0 | Some c3 \<Rightarrow> levels_left c3)
                        (case qbr of None \<Rightarrow> 0 | Some c4 \<Rightarrow> levels_left c4))))"


section \<open>Evaluation\<close>

text \<open>The limit as a numeral, for the evaluation of concrete calls.\<close>

lemma overflow_limit_numeral [code]:
  "overflow_limit =
     179769313486231580793728971405303415079934132710037826936173778980444968292764750946649017977587207096330286416692887910946555547851940402630657488671505820681908902000708383676273854845817711531764475730270069855571366959622842914819860834936475292719074168444365510704342711559699508093042880177904174497792"
  unfolding overflow_limit_def by simp

section \<open>Termination of insert\<close>

text \<open>
  \<open>levels_left\<close> does not grow in a call of \<^verbatim>\<open>insert\<close>, it drops when the call descends
  into a quadrant, and the reinsertion after a split works on a split node.
\<close>

lemma levels_left_leaf: "isLeaf n \<Longrightarrow> levels_left n = nat (maxDepth n - depth n)"
  by (cases n; cases "quadrants n") (auto simp: isLeaf_def qget_def)

lemma levels_left_quadrant:
  "\<not> isLeaf n \<Longrightarrow> qget (quadrants n) k = Some c \<Longrightarrow> levels_left c < levels_left n"
  by (cases n; cases "quadrants n")
     (auto simp: isLeaf_def qget_def split: if_splits option.splits)

lemma levels_left_update_children [simp]:
  "levels_left (update_children f n) = levels_left n"
  by (cases n; cases "quadrants n") (auto simp: update_children_def)

lemma levels_left_update_overlappingChildren [simp]:
  "levels_left (update_overlappingChildren f n) = levels_left n"
  by (cases n; cases "quadrants n") (auto simp: update_overlappingChildren_def)

lemma isLeaf_update_children [simp]: "isLeaf (update_children f n) = isLeaf n"
  by (simp add: isLeaf_def update_children_def)

lemma isLeaf_update_overlappingChildren [simp]:
  "isLeaf (update_overlappingChildren f n) = isLeaf n"
  by (simp add: isLeaf_def update_overlappingChildren_def)

lemma node_eq_Inr:
  "node b mc md d = Inr c \<longleftrightarrow>
     mc > 0 \<and> md > 0 \<and> d \<ge> 0 \<and> c = Node b mc md d (Quads None None None None) [] []"
  by (auto simp: node_def)

lemma split_not_leaf: "split n = Inr s \<Longrightarrow> \<not> isLeaf s"
  by (auto simp: split_def Let_def isLeaf_def qget_def qset_def update_quadrants_def
           split: sum.splits)

lemma split_levels_left:
  "split n = Inr s \<Longrightarrow> depth n < maxDepth n \<Longrightarrow> levels_left s = nat (maxDepth n - depth n)"
  by (cases n)
     (auto simp: split_def Let_def qset_def update_quadrants_def node_eq_Inr
           split: sum.splits)

lemma levels_left_qset:
  assumes "\<not> isLeaf n" "qget (quadrants n) k = Some c" "levels_left c' \<le> levels_left c"
  shows "levels_left (update_quadrants (\<lambda>q. qset q k (Some c')) n) \<le> levels_left n"
  using assms
  by (cases n; cases "quadrants n")
     (auto simp: isLeaf_def qget_def qset_def update_quadrants_def
           split: if_splits option.splits)

lemma isLeaf_qset:
  "\<not> isLeaf n \<Longrightarrow> \<not> isLeaf (update_quadrants (\<lambda>q. qset q k (Some c')) n)"
  by (auto simp: isLeaf_def qget_def qset_def update_quadrants_def)

lemma insert_dom_result:
  "insert_item_insert_reduce_dom (Inl (n, item)) \<Longrightarrow>
     (\<forall>n'. insert_item n item = Inr n' \<longrightarrow>
        levels_left n' \<le> levels_left n \<and> (\<not> isLeaf n \<longrightarrow> \<not> isLeaf n'))"
  "insert_item_insert_reduce_dom (Inr (acc, items)) \<Longrightarrow>
     (\<forall>r. insert_reduce acc items = Inr r \<longrightarrow>
        levels_left r \<le> levels_left acc \<and> (\<not> isLeaf acc \<longrightarrow> \<not> isLeaf r))"
proof (induction n item and acc items rule: insert_item_insert_reduce.pinduct)
  case (1 n item)
  show ?case
  proof (cases "isLeaf n")
    case False
    show ?thesis
    proof (intro allI impI)
      fix n' assume r: "insert_item n item = Inr n'"
      let ?k = "determineQuadrant n item"
      from r False 1(1) obtain c where c: "qget (quadrants n) ?k = Some c"
        by (auto simp: insert_item.psimps Let_def split: option.splits)
      show "levels_left n' \<le> levels_left n \<and> (\<not> isLeaf n \<longrightarrow> \<not> isLeaf n')"
      proof (cases "within_bound (node_boundary c) item")
        case True
        with r False 1(1) c obtain d where d: "insert_item c item = Inr d"
          and n': "n' = update_quadrants (\<lambda>q. qset q ?k (Some d)) n"
          by (auto simp: insert_item.psimps Let_def split: sum.splits)
        from 1(2)[OF False refl c True] d have "levels_left d \<le> levels_left c" by simp
        then show ?thesis using False c n' levels_left_qset isLeaf_qset by simp
      next
        case nw: False
        with r False 1(1) c have "n' = addOverlappingChild n item"
          by (auto simp: insert_item.psimps Let_def)
        then show ?thesis by (simp add: addOverlappingChild_def)
      qed
    qed
  next
    case True
    show ?thesis
    proof (intro allI impI)
      fix n' assume r: "insert_item n item = Inr n'"
      let ?u = "addChild n item"
      show "levels_left n' \<le> levels_left n \<and> (\<not> isLeaf n \<longrightarrow> \<not> isLeaf n')"
      proof (cases "isSplittable ?u")
        case False
        with r True 1(1) have "n' = ?u" by (auto simp: insert_item.psimps Let_def)
        then show ?thesis using True by (simp add: addChild_def)
      next
        case sp: True
        with r True 1(1) obtain s r' where s: "split ?u = Inr s"
          and r': "insert_reduce s (children s) = Inr r'"
          and n': "n' = update_children (\<lambda>l. []) r'"
          by (auto simp: insert_item.psimps Let_def split: sum.splits)
        from sp have lt: "depth ?u < maxDepth ?u" by (simp add: isSplittable_def Let_def)
        have "levels_left r' \<le> levels_left s"
          using 1(3)[OF _ refl _ s refl] True sp r' by simp
        moreover have "levels_left s = levels_left n"
          using split_levels_left[OF s lt] True
          by (simp add: levels_left_leaf addChild_def update_children_def)
        ultimately show ?thesis using True n' by simp
      qed
    qed
  qed
next
  case (2 acc)
  then show ?case by (simp add: insert_reduce.psimps)
next
  case (3 acc i items)
  show ?case
  proof (intro allI impI)
    fix r assume r: "insert_reduce acc (i # items) = Inr r"
    with 3(1) obtain b where b: "insert_item acc i = Inr b" and rb: "insert_reduce b items = Inr r"
      by (auto simp: insert_reduce.psimps split: sum.splits)
    from 3(2) b have 1: "levels_left b \<le> levels_left acc" "\<not> isLeaf acc \<longrightarrow> \<not> isLeaf b" by auto
    from 3(3)[OF b] rb have 2: "levels_left r \<le> levels_left b" "\<not> isLeaf b \<longrightarrow> \<not> isLeaf r" by auto
    from 1 2 show "levels_left r \<le> levels_left acc \<and> (\<not> isLeaf acc \<longrightarrow> \<not> isLeaf r)" by auto
  qed
qed

termination insert_item
proof (relation "inv_image (less_than <*lex*> less_than <*lex*> less_than)
    (\<lambda>a. case a of
        Inl (n, item) \<Rightarrow> (levels_left n, if isLeaf n then 2 else 0, 0::nat)
      | Inr (acc, items) \<Rightarrow> (levels_left acc, if isLeaf acc then 3 else (1::nat), length items))",
    goal_cases)
  case 1
  then show ?case by (intro wf_inv_image wf_lex_prod wf_less_than)
next
  case (2 n item x x2)
  then show ?case using levels_left_quadrant[of n x x2] by simp
next
  case (3 n item x b xa)
  then have "depth x < maxDepth x" by (simp add: isSplittable_def Let_def)
  from split_levels_left[OF 3(4) this] 3 split_not_leaf[OF 3(4)]
  show ?case by (simp add: levels_left_leaf addChild_def update_children_def)
next
  case (4 acc i items)
  then show ?case by simp
next
  case (5 acc i items b)
  from insert_dom_result(1)[OF 5(2)] 5(1)
  have "levels_left b \<le> levels_left acc" "\<not> isLeaf acc \<longrightarrow> \<not> isLeaf b" by auto
  then show ?case by auto
qed


section \<open>The four cases of insert\<close>

declare insert_item.simps [simp del]

lemma insert_item_leaf_nosplit:
  "isLeaf n \<Longrightarrow> \<not> isSplittable (addChild n item) \<Longrightarrow> insert_item n item = Inr (addChild n item)"
  by (subst insert_item.simps) (simp add: Let_def)

lemma insert_item_leaf_split:
  "isLeaf n \<Longrightarrow> isSplittable (addChild n item) \<Longrightarrow> split (addChild n item) = Inr s \<Longrightarrow>
   insert_reduce s (children s) = Inr r \<Longrightarrow>
   insert_item n item = Inr (update_children (\<lambda>l. []) r)"
  by (subst insert_item.simps) (simp add: Let_def)

lemma insert_item_inner_descend:
  "\<not> isLeaf n \<Longrightarrow> qget (quadrants n) (determineQuadrant n item) = Some c \<Longrightarrow>
   within_bound (node_boundary c) item \<Longrightarrow> insert_item c item = Inr c' \<Longrightarrow>
   insert_item n item =
     Inr (update_quadrants (\<lambda>q. qset q (determineQuadrant n item) (Some c')) n)"
  by (subst insert_item.simps) (simp add: Let_def)

lemma insert_item_inner_overlap:
  "\<not> isLeaf n \<Longrightarrow> qget (quadrants n) (determineQuadrant n item) = Some c \<Longrightarrow>
   \<not> within_bound (node_boundary c) item \<Longrightarrow>
   insert_item n item = Inr (addOverlappingChild n item)"
  by (subst insert_item.simps) (simp add: Let_def)

lemma determineQuadrant_cases:
  "determineQuadrant n item = ''top-left'' \<or> determineQuadrant n item = ''top-right'' \<or>
   determineQuadrant n item = ''bottom-left'' \<or> determineQuadrant n item = ''bottom-right''"
  by (simp add: determineQuadrant_def Let_def)


section \<open>Insertion keeps a tree well formed\<close>

lemma well_formed_params:
  "well_formed n \<Longrightarrow> 0 < maxChildren n \<and> 0 < maxDepth n \<and> 0 \<le> depth n \<and> depth n \<le> maxDepth n"
  by (cases n; cases "quadrants n") simp

lemma well_formed_leaf:
  "well_formed n \<Longrightarrow> isLeaf n \<Longrightarrow> quadrants n = Quads None None None None"
  by (cases n; cases "quadrants n") (simp add: isLeaf_def qget_def)

lemma well_formed_inner:
  "well_formed n \<Longrightarrow> \<not> isLeaf n \<Longrightarrow>
   \<exists>c1 c2 c3 c4. quadrants n = Quads (Some c1) (Some c2) (Some c3) (Some c4) \<and>
     well_formed c1 \<and> well_formed c2 \<and> well_formed c3 \<and> well_formed c4 \<and>
     child_params (maxChildren n) (maxDepth n) (depth n) c1 \<and>
     child_params (maxChildren n) (maxDepth n) (depth n) c2 \<and>
     child_params (maxChildren n) (maxDepth n) (depth n) c3 \<and>
     child_params (maxChildren n) (maxDepth n) (depth n) c4"
  by (cases n; cases "quadrants n") (auto simp: isLeaf_def qget_def split: option.splits)

lemma well_formed_leafI:
  "0 < maxChildren n \<Longrightarrow> 0 < maxDepth n \<Longrightarrow> 0 \<le> depth n \<Longrightarrow> depth n \<le> maxDepth n \<Longrightarrow>
   quadrants n = Quads None None None None \<Longrightarrow> well_formed n"
  by (cases n) simp

lemma well_formed_innerI:
  "0 < maxChildren n \<Longrightarrow> 0 < maxDepth n \<Longrightarrow> 0 \<le> depth n \<Longrightarrow> depth n \<le> maxDepth n \<Longrightarrow>
   quadrants n = Quads (Some c1) (Some c2) (Some c3) (Some c4) \<Longrightarrow>
   well_formed c1 \<Longrightarrow> well_formed c2 \<Longrightarrow> well_formed c3 \<Longrightarrow> well_formed c4 \<Longrightarrow>
   child_params (maxChildren n) (maxDepth n) (depth n) c1 \<Longrightarrow>
   child_params (maxChildren n) (maxDepth n) (depth n) c2 \<Longrightarrow>
   child_params (maxChildren n) (maxDepth n) (depth n) c3 \<Longrightarrow>
   child_params (maxChildren n) (maxDepth n) (depth n) c4 \<Longrightarrow> well_formed n"
  by (cases n) simp

lemma items_of_sel:
  "items_of n = mset (children n) + mset (overlappingChildren n) +
     (case top_left (quadrants n) of None \<Rightarrow> {#} | Some c \<Rightarrow> items_of c) +
     (case top_right (quadrants n) of None \<Rightarrow> {#} | Some c \<Rightarrow> items_of c) +
     (case bottom_left (quadrants n) of None \<Rightarrow> {#} | Some c \<Rightarrow> items_of c) +
     (case bottom_right (quadrants n) of None \<Rightarrow> {#} | Some c \<Rightarrow> items_of c)"
  by (cases n; cases "quadrants n") simp

lemma items_inside_sel:
  "items_inside n \<longleftrightarrow>
     (\<forall>i \<in># items_of n. within_bound (node_boundary n) i) \<and> quads_inside n"
  by (cases n; cases "quadrants n") (simp add: quads_inside_def)

lemma all_fit_sel:
  "all_fit n \<longleftrightarrow>
     fits (node_boundary n) \<and>
     (case top_left (quadrants n) of None \<Rightarrow> True | Some c \<Rightarrow> all_fit c) \<and>
     (case top_right (quadrants n) of None \<Rightarrow> True | Some c \<Rightarrow> all_fit c) \<and>
     (case bottom_left (quadrants n) of None \<Rightarrow> True | Some c \<Rightarrow> all_fit c) \<and>
     (case bottom_right (quadrants n) of None \<Rightarrow> True | Some c \<Rightarrow> all_fit c)"
  by (cases n; cases "quadrants n") simp

lemma well_formed_update_children [simp]:
  "well_formed (update_children f n) = well_formed n"
  by (cases n; cases "quadrants n") (simp add: update_children_def)

lemma well_formed_update_overlappingChildren [simp]:
  "well_formed (update_overlappingChildren f n) = well_formed n"
  by (cases n; cases "quadrants n") (simp add: update_overlappingChildren_def)

lemma same_frame_update_children [simp]: "same_frame n (update_children f n)"
  by (simp add: same_frame_def update_children_def)

lemma same_frame_update_overlappingChildren [simp]:
  "same_frame n (update_overlappingChildren f n)"
  by (simp add: same_frame_def update_overlappingChildren_def)

lemma quads_inside_update_children [simp]:
  "quads_inside (update_children f n) = quads_inside n"
  by (simp add: quads_inside_def update_children_def)

lemma quads_inside_update_overlappingChildren [simp]:
  "quads_inside (update_overlappingChildren f n) = quads_inside n"
  by (simp add: quads_inside_def update_overlappingChildren_def)

lemma all_fit_update_children [simp]: "all_fit (update_children f n) = all_fit n"
  by (cases n; cases "quadrants n") (simp add: update_children_def)

lemma all_fit_update_overlappingChildren [simp]:
  "all_fit (update_overlappingChildren f n) = all_fit n"
  by (cases n; cases "quadrants n") (simp add: update_overlappingChildren_def)

lemma items_of_addChild: "items_of (addChild n item) = items_of n + {#item#}"
  by (cases n; cases "quadrants n") (simp add: addChild_def update_children_def)

lemma items_of_addOverlappingChild:
  "items_of (addOverlappingChild n item) = items_of n + {#item#}"
  by (cases n; cases "quadrants n")
     (simp add: addOverlappingChild_def update_overlappingChildren_def)

lemma items_of_clear_children:
  "items_of (update_children (\<lambda>l. []) n) + mset (children n) = items_of n"
  by (cases n; cases "quadrants n") (simp add: update_children_def)

lemma children_update_overlappingChildren [simp]:
  "children (update_overlappingChildren f n) = children n"
  by (simp add: update_overlappingChildren_def)

lemma children_update_children [simp]: "children (update_children f n) = f (children n)"
  by (simp add: update_children_def)

lemma step_ok_trans:
  "step_ok a A b \<Longrightarrow> step_ok b B c \<Longrightarrow> step_ok a (A + B) c"
  unfolding step_ok_def same_frame_def by (simp add: add.assoc)

lemma step_ok_refl: "well_formed n \<Longrightarrow> step_ok n {#} n"
  by (simp add: step_ok_def same_frame_def)

lemma step_ok_addChild:
  "well_formed n \<Longrightarrow> isLeaf n \<Longrightarrow> step_ok n {#item#} (addChild n item)"
  unfolding step_ok_def
  by (simp add: items_of_addChild) (simp add: addChild_def)

lemma step_ok_addOverlappingChild:
  "well_formed n \<Longrightarrow> step_ok n {#item#} (addOverlappingChild n item)"
  unfolding step_ok_def
  by (simp add: items_of_addOverlappingChild) (simp add: addOverlappingChild_def)

lemma step_ok_items_inside:
  assumes "step_ok c A d" and "items_inside c"
    and "\<forall>i \<in># A. within_bound (node_boundary c) i"
  shows "items_inside d"
proof -
  from assms(1) have "node_boundary d = node_boundary c" "items_of d = items_of c + A"
    "quads_inside c \<longrightarrow> quads_inside d"
    by (simp_all add: step_ok_def same_frame_def)
  with assms(2,3) show ?thesis
    by (auto simp: items_inside_sel [of c] items_inside_sel [of d])
qed

subsection \<open>The range of the numbers in split\<close>

lemma fits_split_in_range: "fits b \<Longrightarrow> split_in_range b"
  unfolding fits_def split_in_range_def is_number_def by (auto simp: abs_if split: if_splits)

lemma fits_quadrants:
  assumes "fits b"
  shows "fits (rect (pos_x b) (pos_y b) (height b / 2) (width b / 2))"
    and "fits (rect (pos_x b + width b / 2) (pos_y b) (height b / 2) (width b / 2))"
    and "fits (rect (pos_x b) (pos_y b + height b / 2) (height b / 2) (width b / 2))"
    and "fits (rect (pos_x b + width b / 2) (pos_y b + height b / 2)
           (height b / 2) (width b / 2))"
  using assms unfolding fits_def by (auto simp: abs_if split: if_splits)

lemma boundary_Inr:
  "is_number w \<Longrightarrow> is_number h \<Longrightarrow> is_number x \<Longrightarrow> is_number y \<Longrightarrow>
   boundary x y w h = Inr (rect x y w h)"
  by (simp add: boundary_def position_def)

lemma boundary_Inr_iff:
  "boundary x y w h = Inr b \<longleftrightarrow>
     is_number w \<and> is_number h \<and> is_number x \<and> is_number y \<and> b = rect x y w h"
  by (auto simp: boundary_def position_def split: if_splits)

lemma boundary_Inl: "boundary x y w h = Inl e \<Longrightarrow> e = AssertionError"
  by (auto simp: boundary_def position_def split: if_splits)

lemma node_Inl: "node b mc md d = Inl e \<Longrightarrow> e = AssertionError"
  by (auto simp: node_def split: if_splits)

lemma split_eq:
  assumes "0 < maxChildren n" "0 < maxDepth n" "0 \<le> depth n + 1"
    and "split_in_range (node_boundary n)"
  shows "split n =
    Inr (Node (node_boundary n) (maxChildren n) (maxDepth n) (depth n)
      (Quads
        (Some (Node (rect (pos_x (node_boundary n)) (pos_y (node_boundary n))
                 (height (node_boundary n) / 2) (width (node_boundary n) / 2))
                 (maxChildren n) (maxDepth n) (depth n + 1) (Quads None None None None) [] []))
        (Some (Node (rect (pos_x (node_boundary n) + width (node_boundary n) / 2)
                 (pos_y (node_boundary n))
                 (height (node_boundary n) / 2) (width (node_boundary n) / 2))
                 (maxChildren n) (maxDepth n) (depth n + 1) (Quads None None None None) [] []))
        (Some (Node (rect (pos_x (node_boundary n))
                 (pos_y (node_boundary n) + height (node_boundary n) / 2)
                 (height (node_boundary n) / 2) (width (node_boundary n) / 2))
                 (maxChildren n) (maxDepth n) (depth n + 1) (Quads None None None None) [] []))
        (Some (Node (rect (pos_x (node_boundary n) + width (node_boundary n) / 2)
                 (pos_y (node_boundary n) + height (node_boundary n) / 2)
                 (height (node_boundary n) / 2) (width (node_boundary n) / 2))
                 (maxChildren n) (maxDepth n) (depth n + 1) (Quads None None None None) [] [])))
      (children n) (overlappingChildren n))"
  using assms
  by (simp add: split_def Let_def node_def boundary_Inr split_in_range_def
        update_quadrants_def qset_def)

lemma split_Inr_iff:
  "(\<exists>s. split n = Inr s) \<longleftrightarrow>
     0 < maxChildren n \<and> 0 < maxDepth n \<and> 0 \<le> depth n + 1 \<and>
     split_in_range (node_boundary n)"
proof
  assume "\<exists>s. split n = Inr s"
  then obtain s where s: "split n = Inr s" ..
  from s obtain b1 b2 b3 b4 c1
    where b: "boundary (pos_x (node_boundary n)) (pos_y (node_boundary n))
        (height (node_boundary n) / 2) (width (node_boundary n) / 2) = Inr b1"
      "boundary (pos_x (node_boundary n) + width (node_boundary n) / 2)
        (pos_y (node_boundary n))
        (height (node_boundary n) / 2) (width (node_boundary n) / 2) = Inr b2"
      "boundary (pos_x (node_boundary n))
        (pos_y (node_boundary n) + height (node_boundary n) / 2)
        (height (node_boundary n) / 2) (width (node_boundary n) / 2) = Inr b3"
      "boundary (pos_x (node_boundary n) + width (node_boundary n) / 2)
        (pos_y (node_boundary n) + height (node_boundary n) / 2)
        (height (node_boundary n) / 2) (width (node_boundary n) / 2) = Inr b4"
      and c: "node b1 (maxChildren n) (maxDepth n) (depth n + 1) = Inr c1"
    by (auto simp: split_def Let_def split: sum.splits)
  from b have "split_in_range (node_boundary n)"
    by (simp add: boundary_Inr_iff split_in_range_def)
  with c show "0 < maxChildren n \<and> 0 < maxDepth n \<and> 0 \<le> depth n + 1 \<and>
     split_in_range (node_boundary n)"
    by (simp add: node_eq_Inr)
next
  assume "0 < maxChildren n \<and> 0 < maxDepth n \<and> 0 \<le> depth n + 1 \<and>
     split_in_range (node_boundary n)"
  then show "\<exists>s. split n = Inr s" by (simp add: split_eq)
qed

lemma split_Inl: "split n = Inl e \<Longrightarrow> e = AssertionError"
  by (auto simp: split_def Let_def split: sum.splits dest: boundary_Inl node_Inl)

lemma step_ok_split:
  assumes wf: "well_formed u" and leaf: "isLeaf u" and lt: "depth u < maxDepth u"
    and sp: "split u = Inr s"
  shows "\<not> isLeaf s \<and> children s = children u \<and> step_ok u {#} s"
proof -
  from wf have p: "0 < maxChildren u" "0 < maxDepth u" "0 \<le> depth u"
    using well_formed_params by auto
  from sp split_Inr_iff [of u] have rg: "split_in_range (node_boundary u)" by blast
  define fresh where "fresh b = Node b (maxChildren u) (maxDepth u) (depth u + 1)
    (Quads None None None None) [] []" for b
  have fresh_wf: "well_formed (fresh b)" for b
    using p lt by (simp add: fresh_def)
  have fresh_cp: "child_params (maxChildren u) (maxDepth u) (depth u) (fresh b)" for b
    by (simp add: fresh_def child_params_def)
  have fresh_items: "items_of (fresh b) = {#}" for b
    by (simp add: fresh_def)
  have fresh_inside: "items_inside (fresh b)" for b
    by (simp add: fresh_def)
  have fresh_fit: "all_fit (fresh b) = fits b" for b
    by (simp add: fresh_def)
  define b1 where "b1 = rect (pos_x (node_boundary u)) (pos_y (node_boundary u))
    (height (node_boundary u) / 2) (width (node_boundary u) / 2)"
  define b2 where "b2 = rect (pos_x (node_boundary u) + width (node_boundary u) / 2)
    (pos_y (node_boundary u)) (height (node_boundary u) / 2) (width (node_boundary u) / 2)"
  define b3 where "b3 = rect (pos_x (node_boundary u))
    (pos_y (node_boundary u) + height (node_boundary u) / 2)
    (height (node_boundary u) / 2) (width (node_boundary u) / 2)"
  define b4 where "b4 = rect (pos_x (node_boundary u) + width (node_boundary u) / 2)
    (pos_y (node_boundary u) + height (node_boundary u) / 2)
    (height (node_boundary u) / 2) (width (node_boundary u) / 2)"
  define s' where "s' = Node (node_boundary u) (maxChildren u) (maxDepth u) (depth u)
        (Quads (Some (fresh b1)) (Some (fresh b2)) (Some (fresh b3)) (Some (fresh b4)))
        (children u) (overlappingChildren u)"
  have "split u = Inr s'"
    unfolding s'_def fresh_def b1_def b2_def b3_def b4_def
    by (rule split_eq) (use p rg in simp_all)
  with sp have s: "s = s'" by simp
  have qs: "quadrants s' =
      Quads (Some (fresh b1)) (Some (fresh b2)) (Some (fresh b3)) (Some (fresh b4))"
    by (simp add: s'_def)
  have 1: "\<not> isLeaf s'" by (simp add: s'_def isLeaf_def qget_def)
  have 2: "well_formed s'"
    by (rule well_formed_innerI [OF _ _ _ _ qs])
       (use p lt fresh_wf fresh_cp in \<open>simp_all add: s'_def\<close>)
  have 3: "same_frame u s'" by (simp add: same_frame_def s'_def)
  have q: "quadrants u = Quads None None None None"
    using well_formed_leaf [OF wf leaf] .
  have 4: "items_of s' = items_of u"
    by (simp add: items_of_sel [of s'] items_of_sel [of u] q qs fresh_items) (simp add: s'_def)
  have 5: "quads_inside s'"
    by (simp add: quads_inside_def qs fresh_inside)
  have 6: "all_fit s'" if "all_fit u"
  proof -
    from that have f: "fits (node_boundary u)" by (simp add: all_fit_sel [of u])
    from fits_quadrants [OF f] have "fits b1" "fits b2" "fits b3" "fits b4"
      by (simp_all add: b1_def b2_def b3_def b4_def)
    with f show ?thesis
      by (simp add: all_fit_sel [of s'] qs fresh_fit) (simp add: s'_def)
  qed
  have 7: "children s' = children u" by (simp add: s'_def)
  from 1 2 3 4 5 6 leaf have "step_ok u {#} s'" by (simp add: step_ok_def)
  with 1 7 s show ?thesis by simp
qed

lemma split_returns:
  "well_formed u \<Longrightarrow> fits (node_boundary u) \<Longrightarrow> \<exists>s. split u = Inr s"
  using well_formed_params [of u] fits_split_in_range [of "node_boundary u"]
  by (simp add: split_Inr_iff)

lemma well_formed_qget:
  assumes "well_formed n" "\<not> isLeaf n"
    and "k = ''top-left'' \<or> k = ''top-right'' \<or> k = ''bottom-left'' \<or> k = ''bottom-right''"
  shows "\<exists>c. qget (quadrants n) k = Some c \<and> well_formed c \<and>
     child_params (maxChildren n) (maxDepth n) (depth n) c"
proof -
  from well_formed_inner [OF assms(1,2)] obtain c1 c2 c3 c4
    where q: "quadrants n = Quads (Some c1) (Some c2) (Some c3) (Some c4)"
      and wf: "well_formed c1" "well_formed c2" "well_formed c3" "well_formed c4"
      and cp: "child_params (maxChildren n) (maxDepth n) (depth n) c1"
        "child_params (maxChildren n) (maxDepth n) (depth n) c2"
        "child_params (maxChildren n) (maxDepth n) (depth n) c3"
        "child_params (maxChildren n) (maxDepth n) (depth n) c4"
    by blast
  from assms(3) consider "k = ''top-left''" | "k = ''top-right''"
    | "k = ''bottom-left''" | "k = ''bottom-right''"
    by blast
  then show ?thesis
    by cases (simp_all add: qget_def q wf cp)
qed

lemma child_params_same_frame:
  "same_frame c d \<Longrightarrow> child_params mc md dp c \<Longrightarrow> child_params mc md dp d"
  by (simp add: same_frame_def child_params_def)

lemma all_fit_qget:
  "all_fit n \<Longrightarrow> qget (quadrants n) k = Some c \<Longrightarrow> all_fit c"
  by (auto simp: all_fit_sel [of n] qget_def split: if_splits)

lemma step_ok_replace:
  assumes wf: "well_formed n"
    and q: "quadrants n = Quads (Some c1) (Some c2) (Some c3) (Some c4)"
    and q': "quadrants n' = Quads (Some d1) (Some d2) (Some d3) (Some d4)"
    and fr: "same_frame n n'"
    and ch: "children n' = children n" "overlappingChildren n' = overlappingChildren n"
    and st: "step_ok c1 A1 d1" "step_ok c2 A2 d2" "step_ok c3 A3 d3" "step_ok c4 A4 d4"
    and inside: "\<forall>i \<in># A1. within_bound (node_boundary c1) i"
      "\<forall>i \<in># A2. within_bound (node_boundary c2) i"
      "\<forall>i \<in># A3. within_bound (node_boundary c3) i"
      "\<forall>i \<in># A4. within_bound (node_boundary c4) i"
  shows "step_ok n (A1 + A2 + A3 + A4) n'"
proof -
  have inner: "\<not> isLeaf n" using q by (simp add: isLeaf_def qget_def)
  from well_formed_inner [OF wf inner] q
  have cp: "child_params (maxChildren n) (maxDepth n) (depth n) c1"
    "child_params (maxChildren n) (maxDepth n) (depth n) c2"
    "child_params (maxChildren n) (maxDepth n) (depth n) c3"
    "child_params (maxChildren n) (maxDepth n) (depth n) c4"
    by auto
  from st have wfd: "well_formed d1" "well_formed d2" "well_formed d3" "well_formed d4"
    and frd: "same_frame c1 d1" "same_frame c2 d2" "same_frame c3 d3" "same_frame c4 d4"
    and itd: "items_of d1 = items_of c1 + A1" "items_of d2 = items_of c2 + A2"
      "items_of d3 = items_of c3 + A3" "items_of d4 = items_of c4 + A4"
    and fit: "all_fit c1 \<longrightarrow> all_fit d1" "all_fit c2 \<longrightarrow> all_fit d2"
      "all_fit c3 \<longrightarrow> all_fit d3" "all_fit c4 \<longrightarrow> all_fit d4"
    by (simp_all add: step_ok_def)
  from fr have eqs: "node_boundary n' = node_boundary n" "maxChildren n' = maxChildren n"
    "maxDepth n' = maxDepth n" "depth n' = depth n"
    by (simp_all add: same_frame_def)
  have 1: "well_formed n'"
    by (rule well_formed_innerI [OF _ _ _ _ q'])
       (use well_formed_params [OF wf] eqs wfd cp frd child_params_same_frame in simp_all)
  have 2: "\<not> isLeaf n'" using q' by (simp add: isLeaf_def qget_def)
  have 3: "items_of n' = items_of n + (A1 + A2 + A3 + A4)"
    by (simp add: items_of_sel [of n] items_of_sel [of n'] q q' ch itd)
  have 4: "quads_inside n'" if a: "quads_inside n"
  proof -
    from a have sub: "items_inside c1" "items_inside c2" "items_inside c3" "items_inside c4"
      by (simp_all add: quads_inside_def q)
    have "items_inside d1" "items_inside d2" "items_inside d3" "items_inside d4"
      using step_ok_items_inside [OF st(1) sub(1) inside(1)]
        step_ok_items_inside [OF st(2) sub(2) inside(2)]
        step_ok_items_inside [OF st(3) sub(3) inside(3)]
        step_ok_items_inside [OF st(4) sub(4) inside(4)]
      by simp_all
    then show ?thesis by (simp add: quads_inside_def q')
  qed
  have 5: "all_fit n'" if a: "all_fit n"
    using a fit by (simp add: all_fit_sel [of n] all_fit_sel [of n'] q q' eqs)
  from 1 2 3 4 5 fr ch show ?thesis by (simp add: step_ok_def)
qed

lemma step_ok_descend:
  assumes wf: "well_formed n" and inner: "\<not> isLeaf n"
    and k: "qget (quadrants n) k = Some c"
    and st: "step_ok c {#item#} c'"
    and w: "within_bound (node_boundary c) item"
  shows "step_ok n {#item#} (update_quadrants (\<lambda>q. qset q k (Some c')) n)"
proof -
  from well_formed_inner [OF wf inner] obtain c1 c2 c3 c4
    where q: "quadrants n = Quads (Some c1) (Some c2) (Some c3) (Some c4)"
      and wfc: "well_formed c1" "well_formed c2" "well_formed c3" "well_formed c4"
    by blast
  note r = step_ok_refl [OF wfc(1)] step_ok_refl [OF wfc(2)]
    step_ok_refl [OF wfc(3)] step_ok_refl [OF wfc(4)]
  let ?n' = "update_quadrants (\<lambda>q. qset q k (Some c')) n"
  have fr: "same_frame n ?n'" "children ?n' = children n"
    "overlappingChildren ?n' = overlappingChildren n"
    by (simp_all add: same_frame_def update_quadrants_def)
  from k q consider
      (tl) "k = ''top-left''" "c = c1"
    | (tr) "k = ''top-right''" "c = c2"
    | (bl) "k = ''bottom-left''" "c = c3"
    | (br) "k = ''bottom-right''" "c = c4"
    by (auto simp: qget_def split: if_splits)
  then show ?thesis
  proof cases
    case tl
    have "quadrants ?n' = Quads (Some c') (Some c2) (Some c3) (Some c4)"
      by (simp add: update_quadrants_def qset_def q tl)
    from step_ok_replace [OF wf q this fr st [unfolded tl] r(2) r(3) r(4)] w
    show ?thesis by (simp add: tl)
  next
    case tr
    have "quadrants ?n' = Quads (Some c1) (Some c') (Some c3) (Some c4)"
      by (simp add: update_quadrants_def qset_def q tr)
    from step_ok_replace [OF wf q this fr r(1) st [unfolded tr] r(3) r(4)] w
    show ?thesis by (simp add: tr)
  next
    case bl
    have "quadrants ?n' = Quads (Some c1) (Some c2) (Some c') (Some c4)"
      by (simp add: update_quadrants_def qset_def q bl)
    from step_ok_replace [OF wf q this fr r(1) r(2) st [unfolded bl] r(4)] w
    show ?thesis by (simp add: bl)
  next
    case br
    have "quadrants ?n' = Quads (Some c1) (Some c2) (Some c3) (Some c')"
      by (simp add: update_quadrants_def qset_def q br)
    from step_ok_replace [OF wf q this fr r(1) r(2) r(3) st [unfolded br]] w
    show ?thesis by (simp add: br)
  qed
qed

lemma children_in_items_of: "i \<in> set (children n) \<Longrightarrow> i \<in># items_of n"
  by (simp add: items_of_sel [of n])

lemma items_inside_top:
  "items_inside n \<Longrightarrow> i \<in># items_of n \<Longrightarrow> within_bound (node_boundary n) i"
  by (simp add: items_inside_sel [of n])

lemma step_ok_reinserted:
  assumes leaf: "isLeaf n"
    and u: "step_ok n {#item#} u"
    and s: "step_ok u {#} s" "\<not> isLeaf s" "children s = children u"
    and r: "step_ok s (mset (children s)) r"
  shows "step_ok n {#item#} (update_children (\<lambda>l. []) r)"
proof -
  let ?n' = "update_children (\<lambda>l. []) r"
  from u s(1) r have fr: "same_frame n u" "same_frame u s" "same_frame s r"
    and wfr: "well_formed r"
    by (simp_all add: step_ok_def)
  have 1: "well_formed ?n'" using wfr by simp
  have 2: "same_frame n ?n'"
    using fr by (simp add: same_frame_def update_children_def)
  from r s(2) have chr: "children r = children s" by (simp add: step_ok_def)
  have "items_of ?n' + mset (children r) = items_of r"
    by (rule items_of_clear_children)
  also have "\<dots> = items_of n + {#item#} + mset (children s)"
    using u s(1) r by (simp add: step_ok_def)
  finally have 3: "items_of ?n' = items_of n + {#item#}"
    by (simp add: chr)
  have 4: "quads_inside ?n'" if "quads_inside n"
    using that u s(1) r by (simp add: step_ok_def)
  have 5: "all_fit ?n'" if "all_fit n"
    using that u s(1) r by (simp add: step_ok_def)
  from 1 2 3 4 5 leaf show ?thesis by (simp add: step_ok_def)
qed

lemma insert_item_descend_fails:
  "\<not> isLeaf n \<Longrightarrow> qget (quadrants n) (determineQuadrant n item) = Some c \<Longrightarrow>
   within_bound (node_boundary c) item \<Longrightarrow> insert_item c item = Inl e \<Longrightarrow>
   insert_item n item = Inl e"
  by (subst insert_item.simps) (simp add: Let_def)

lemma insert_item_split_fails:
  "isLeaf n \<Longrightarrow> isSplittable (addChild n item) \<Longrightarrow> split (addChild n item) = Inl e \<Longrightarrow>
   insert_item n item = Inl e"
  by (subst insert_item.simps) (simp add: Let_def)

lemma insert_item_reinsert_fails:
  "isLeaf n \<Longrightarrow> isSplittable (addChild n item) \<Longrightarrow> split (addChild n item) = Inr s \<Longrightarrow>
   insert_reduce s (children s) = Inl e \<Longrightarrow>
   insert_item n item = Inl e"
  by (subst insert_item.simps) (simp add: Let_def)

lemma insert_outcome:
  "well_formed n \<Longrightarrow> outcome_ok n {#item#} (insert_item n item)"
  "well_formed acc \<Longrightarrow> outcome_ok acc (mset items) (insert_reduce acc items)"
proof (induction n item and acc items rule: insert_item_insert_reduce.induct)
  case (1 n item)
  note wf = \<open>well_formed n\<close>
  show ?case
  proof (cases "isLeaf n")
    case False
    let ?k = "determineQuadrant n item"
    from well_formed_qget [OF wf False determineQuadrant_cases]
    obtain c where c: "qget (quadrants n) ?k = Some c" "well_formed c"
      by blast
    show ?thesis
    proof (cases "within_bound (node_boundary c) item")
      case True
      note IH = "1.IH"(1) [OF False refl c(1) True c(2)]
      show ?thesis
      proof (cases "insert_item c item")
        case ce: (Inl e)
        with IH have e: "e = AssertionError" "\<not> all_fit c"
          by (simp_all add: outcome_ok_def)
        from e(2) all_fit_qget [OF _ c(1)] have "\<not> all_fit n" by blast
        with insert_item_descend_fails [OF False c(1) True ce] e(1) show ?thesis
          by (simp add: outcome_ok_def)
      next
        case cr: (Inr c')
        with IH have "step_ok c {#item#} c'" by (simp add: outcome_ok_def)
        from insert_item_inner_descend [OF False c(1) True cr]
          step_ok_descend [OF wf False c(1) this True]
        show ?thesis by (simp add: outcome_ok_def)
      qed
    next
      case nw: False
      from insert_item_inner_overlap [OF False c(1) nw] step_ok_addOverlappingChild [OF wf]
      show ?thesis by (simp add: outcome_ok_def)
    qed
  next
    case True
    let ?u = "addChild n item"
    have u: "step_ok n {#item#} ?u"
      by (rule step_ok_addChild [OF wf True])
    show ?thesis
    proof (cases "isSplittable ?u")
      case False
      from insert_item_leaf_nosplit [OF True False] u show ?thesis
        by (simp add: outcome_ok_def)
    next
      case sp: True
      from u have wfu: "well_formed ?u" by (simp add: step_ok_def)
      from True have leafu: "isLeaf ?u" by (simp add: addChild_def)
      from sp have lt: "depth ?u < maxDepth ?u" by (simp add: isSplittable_def Let_def)
      show ?thesis
      proof (cases "split ?u")
        case se: (Inl e)
        from split_Inl [OF se] have e: "e = AssertionError" .
        have "\<not> all_fit n"
        proof
          assume "all_fit n"
          with u have "all_fit ?u" by (simp add: step_ok_def)
          then have "fits (node_boundary ?u)" by (simp add: all_fit_sel [of ?u])
          from split_returns [OF wfu this] se show False by simp
        qed
        with insert_item_split_fails [OF True sp se] e show ?thesis
          by (simp add: outcome_ok_def)
      next
        case sr: (Inr s)
        from step_ok_split [OF wfu leafu lt sr]
        have s: "\<not> isLeaf s" "children s = children ?u" "step_ok ?u {#} s"
          by simp_all
        from s(3) have wfs: "well_formed s" by (simp add: step_ok_def)
        from "1.IH"(2) [OF _ refl _ sr refl wfs] True sp
        have IH: "outcome_ok s (mset (children s)) (insert_reduce s (children s))"
          by simp
        show ?thesis
        proof (cases "insert_reduce s (children s)")
          case re: (Inl e)
          with IH have e: "e = AssertionError" "\<not> all_fit s"
            by (simp_all add: outcome_ok_def)
          from e(2) s(3) u have "\<not> all_fit n" by (auto simp: step_ok_def)
          with insert_item_reinsert_fails [OF True sp sr re] e(1) show ?thesis
            by (simp add: outcome_ok_def)
        next
          case rr: (Inr r)
          with IH have "step_ok s (mset (children s)) r" by (simp add: outcome_ok_def)
          from insert_item_leaf_split [OF True sp sr rr]
            step_ok_reinserted [OF True u s(3) s(1) s(2) this]
          show ?thesis by (simp add: outcome_ok_def)
        qed
      qed
    qed
  qed
next
  case (2 acc)
  then show ?case by (simp add: outcome_ok_def step_ok_refl)
next
  case (3 acc i items)
  note IH1 = "3.IH"(1) [OF "3.prems"]
  show ?case
  proof (cases "insert_item acc i")
    case (Inl e)
    with IH1 show ?thesis by (simp add: outcome_ok_def)
  next
    case br: (Inr b)
    with IH1 have b: "step_ok acc {#i#} b" by (simp add: outcome_ok_def)
    then have wfb: "well_formed b" by (simp add: step_ok_def)
    note IH2 = "3.IH"(2) [OF br wfb]
    show ?thesis
    proof (cases "insert_reduce b items")
      case re: (Inl e)
      with IH2 have e: "e = AssertionError" "\<not> all_fit b"
        by (simp_all add: outcome_ok_def)
      from e(2) b have "\<not> all_fit acc" by (auto simp: step_ok_def)
      with br re e(1) show ?thesis by (simp add: outcome_ok_def)
    next
      case rr: (Inr r)
      with IH2 have "step_ok b (mset items) r" by (simp add: outcome_ok_def)
      from step_ok_trans [OF b this] br rr show ?thesis by (simp add: outcome_ok_def)
    qed
  qed
qed

lemma insert_step_ok:
  "well_formed n \<Longrightarrow> insert_item n item = Inr n' \<Longrightarrow> step_ok n {#item#} n'"
  using insert_outcome(1) [of n item] by (simp add: outcome_ok_def)

lemma insert_reduce_step_ok:
  "well_formed n \<Longrightarrow> insert_reduce n items = Inr n' \<Longrightarrow> step_ok n (mset items) n'"
  using insert_outcome(2) [of n items] by (simp add: outcome_ok_def)

lemma insert_returns:
  "well_formed n \<Longrightarrow> all_fit n \<Longrightarrow> \<exists>n'. insert_item n item = Inr n'"
  using insert_outcome(1) [of n item] by (cases "insert_item n item") (simp_all add: outcome_ok_def)

lemma insert_reduce_returns:
  "well_formed n \<Longrightarrow> all_fit n \<Longrightarrow> \<exists>n'. insert_reduce n items = Inr n'"
  using insert_outcome(2) [of n items]
  by (cases "insert_reduce n items") (simp_all add: outcome_ok_def)

lemma insert_no_TypeError:
  "well_formed n \<Longrightarrow> insert_item n item \<noteq> Inl TypeError"
  using insert_outcome(1) [of n item] by (auto simp: outcome_ok_def)

section \<open>Trees built through the interface are well formed\<close>

lemma batchInsert_insert_reduce: "batchInsert n items = insert_reduce n items"
  by (induction items arbitrary: n) (simp_all split: sum.splits)

lemma batchInsert_step_ok:
  "well_formed n \<Longrightarrow> batchInsert n items = Inr r \<Longrightarrow> step_ok n (mset items) r"
  by (simp add: batchInsert_insert_reduce insert_reduce_step_ok)

lemma batchInsert_returns:
  "well_formed n \<Longrightarrow> all_fit n \<Longrightarrow> \<exists>r. batchInsert n items = Inr r"
  by (simp add: batchInsert_insert_reduce insert_reduce_returns)

lemma clear_Some:
  "clear (Some n) =
     Some (Node (node_boundary n) (maxChildren n) (maxDepth n) (depth n)
       (Quads None None None None) [] [])"
  by (cases n; cases "quadrants n")
     (simp add: update_quadrants_def update_children_def update_overlappingChildren_def
        qset_def)

lemma create_Inr:
  "0 < mc \<Longrightarrow> 0 < md \<Longrightarrow>
   create b mc md = Inr (Node b mc md 0 (Quads None None None None) [] [])"
  by (simp add: create_def node_def)

lemma create_Inr_iff:
  "create b mc md = Inr t \<longleftrightarrow>
     0 < mc \<and> 0 < md \<and> t = Node b mc md 0 (Quads None None None None) [] []"
  by (auto simp: create_def node_def)

lemma tracks_step:
  assumes t: "tracks t acc" and st: "step_ok t (mset items) t'"
  shows "tracks t' (acc @ items)"
proof -
  from st have "same_frame t t'" by (simp add: step_ok_def)
  then have "depth t' = depth t" by (simp add: same_frame_def)
  with t st show ?thesis by (simp add: tracks_def step_ok_def)
qed

lemma stored_from_Cons: "stored_from acc (c # cs) = stored_from (stored_from acc [c]) cs"
  by (cases c) simp_all

lemma api_call_tracks:
  assumes t: "tracks t acc" and r: "api_call t c = Inr t'"
  shows "same_frame t t' \<and> tracks t' (stored_from acc [c]) \<and> (all_fit t \<longrightarrow> all_fit t')"
proof (cases c)
  case (Insert item)
  from t have wf: "well_formed t" by (simp add: tracks_def)
  from r Insert have "insert_item t item = Inr t'" by simp
  from insert_step_ok [OF wf this] have st: "step_ok t (mset [item]) t'" by simp
  from tracks_step [OF t st] st show ?thesis
    by (simp add: Insert step_ok_def)
next
  case (BatchInsert items)
  from t have wf: "well_formed t" by (simp add: tracks_def)
  from r BatchInsert have "batchInsert t items = Inr t'" by simp
  from batchInsert_step_ok [OF wf this] have st: "step_ok t (mset items) t'" .
  from tracks_step [OF t st] st show ?thesis
    by (simp add: BatchInsert step_ok_def)
next
  case Clear
  from t have wf: "well_formed t" and d: "depth t = 0" by (simp_all add: tracks_def)
  from r Clear have "t' = Node (node_boundary t) (maxChildren t) (maxDepth t) (depth t)
      (Quads None None None None) [] []"
    by (simp add: clear_Some)
  with well_formed_params [OF wf] d show ?thesis
    by (simp add: Clear same_frame_def tracks_def quads_inside_def all_fit_sel [of t])
qed

lemma api_call_returns:
  assumes t: "tracks t acc" and f: "all_fit t"
  shows "\<exists>t'. api_call t c = Inr t'"
proof (cases c)
  case (Insert item)
  from t have "well_formed t" by (simp add: tracks_def)
  from insert_returns [OF this f, of item] show ?thesis by (simp add: Insert)
next
  case (BatchInsert items)
  from t have "well_formed t" by (simp add: tracks_def)
  from batchInsert_returns [OF this f, of items] show ?thesis by (simp add: BatchInsert)
next
  case Clear
  then show ?thesis by (simp add: clear_Some)
qed

lemma api_calls_tracks:
  "tracks t acc \<Longrightarrow> api_calls t cs = Inr T \<Longrightarrow>
   same_frame t T \<and> tracks T (stored_from acc cs) \<and> (all_fit t \<longrightarrow> all_fit T)"
proof (induction cs arbitrary: t acc)
  case Nil
  then show ?case by (simp add: same_frame_def)
next
  case (Cons c cs)
  from Cons.prems(2) obtain t' where t': "api_call t c = Inr t'" "api_calls t' cs = Inr T"
    by (auto split: sum.splits)
  from api_call_tracks [OF Cons.prems(1) t'(1)]
  have 1: "same_frame t t'" "tracks t' (stored_from acc [c])" "all_fit t \<longrightarrow> all_fit t'"
    by simp_all
  from Cons.IH [OF 1(2) t'(2)] 1(1,3) show ?case
    by (simp add: stored_from_Cons [of acc c cs] same_frame_def)
qed

lemma api_calls_returns:
  "tracks t acc \<Longrightarrow> all_fit t \<Longrightarrow> \<exists>T. api_calls t cs = Inr T"
proof (induction cs arbitrary: t acc)
  case Nil
  show ?case by simp
next
  case (Cons c cs)
  from api_call_returns [OF Cons.prems, of c] obtain t' where t': "api_call t c = Inr t'"
    by blast
  from api_call_tracks [OF Cons.prems(1) t'] Cons.prems(2)
  have "tracks t' (stored_from acc [c])" "all_fit t'"
    by simp_all
  from Cons.IH [OF this] t' show ?case by simp
qed

lemma build_tracks:
  assumes "build b mc md cs = Inr T"
  shows "tracks T (stored cs) \<and> node_boundary T = b \<and> maxChildren T = mc \<and>
     maxDepth T = md \<and> 0 < mc \<and> 0 < md \<and> (fits b \<longrightarrow> all_fit T)"
proof -
  let ?t = "Node b mc md 0 (Quads None None None None) [] []"
  from assms have pos: "0 < mc" "0 < md" and calls: "api_calls ?t cs = Inr T"
    by (auto simp: build_def create_Inr_iff split: sum.splits)
  from pos have "tracks ?t []" by (simp add: tracks_def quads_inside_def)
  from api_calls_tracks [OF this calls] pos show ?thesis
    by (simp add: stored_def same_frame_def)
qed

lemma build_returns:
  assumes "0 < mc" "0 < md" "fits b"
  shows "\<exists>T. build b mc md cs = Inr T"
proof -
  let ?t = "Node b mc md 0 (Quads None None None None) [] []"
  from assms have "tracks ?t []" "all_fit ?t" by (simp_all add: tracks_def quads_inside_def)
  from api_calls_returns [OF this, of cs] assms(1,2) show ?thesis
    by (simp add: build_def create_Inr)
qed


section \<open>Search\<close>

lemma intersects_commute: "intersects a b = intersects b a"
  by (auto simp: intersects_def)

lemma within_intersects:
  "within_bound b i \<Longrightarrow> intersects q i \<Longrightarrow> intersects b q"
  by (simp add: within_bound_def intersects_def)

lemma search_pruned: "\<not> intersects (node_boundary n) q \<Longrightarrow> search n q = Inr []"
  by (cases n; cases "quadrants n") simp

lemma search_leaf:
  "intersects (node_boundary n) q \<Longrightarrow> isLeaf n \<Longrightarrow>
   search n q = Inr (filter (\<lambda>x. intersects q x) (children n @ overlappingChildren n))"
  by (cases n; cases "quadrants n") (simp add: Let_def)

lemma search_inner:
  "intersects (node_boundary n) q \<Longrightarrow>
   quadrants n = Quads (Some c1) (Some c2) (Some c3) (Some c4) \<Longrightarrow>
   search c1 q = Inr r1 \<Longrightarrow> search c2 q = Inr r2 \<Longrightarrow>
   search c3 q = Inr r3 \<Longrightarrow> search c4 q = Inr r4 \<Longrightarrow>
   search n q =
     Inr (filter (\<lambda>x. intersects q x) (children n @ overlappingChildren n) @
          r1 @ r2 @ r3 @ r4)"
  by (cases n) (simp add: Let_def isLeaf_def qget_def)

lemma search_well_formed:
  "well_formed n \<Longrightarrow>
   \<exists>xs. search n q = Inr xs \<and>
     (\<not> intersects (node_boundary n) q \<longrightarrow> xs = []) \<and>
     (intersects (node_boundary n) q \<and> quads_inside n \<longrightarrow>
        mset xs = filter_mset (\<lambda>x. intersects q x) (items_of n)) \<and>
     (items_inside n \<longrightarrow> mset xs = filter_mset (\<lambda>x. intersects q x) (items_of n))"
proof (induction n)
  case (Node b mc md d qs ch oc)
  let ?n = "Node b mc md d qs ch oc"
  note wf = \<open>well_formed ?n\<close>
  show ?case
  proof (cases "intersects (node_boundary ?n) q")
    case False
    have "filter_mset (\<lambda>x. intersects q x) (items_of ?n) = {#}" if "items_inside ?n"
      using items_inside_top [OF that] within_intersects False
      by auto
    with search_pruned [OF False] False show ?thesis by simp
  next
    case True
    have "\<exists>xs. search ?n q = Inr xs \<and>
        (quads_inside ?n \<longrightarrow> mset xs = filter_mset (\<lambda>x. intersects q x) (items_of ?n))"
    proof (cases "isLeaf ?n")
      case leaf: True
      from well_formed_leaf [OF wf leaf] have "items_of ?n = mset ch + mset oc"
        by (simp add: items_of_sel [of ?n])
      with search_leaf [OF True leaf] show ?thesis by simp
    next
      case inner: False
      from well_formed_inner [OF wf inner] obtain c1 c2 c3 c4
        where qs: "quadrants ?n = Quads (Some c1) (Some c2) (Some c3) (Some c4)"
          and wfc: "well_formed c1" "well_formed c2" "well_formed c3" "well_formed c4"
        by blast
      from qs have mem: "c1 \<in> set_quads qs" "c2 \<in> set_quads qs"
        "c3 \<in> set_quads qs" "c4 \<in> set_quads qs"
        by simp_all
      from Node.IH [OF mem(1) wfc(1)] obtain r1 where r1: "search c1 q = Inr r1"
        "items_inside c1 \<longrightarrow> mset r1 = filter_mset (\<lambda>x. intersects q x) (items_of c1)"
        by blast
      from Node.IH [OF mem(2) wfc(2)] obtain r2 where r2: "search c2 q = Inr r2"
        "items_inside c2 \<longrightarrow> mset r2 = filter_mset (\<lambda>x. intersects q x) (items_of c2)"
        by blast
      from Node.IH [OF mem(3) wfc(3)] obtain r3 where r3: "search c3 q = Inr r3"
        "items_inside c3 \<longrightarrow> mset r3 = filter_mset (\<lambda>x. intersects q x) (items_of c3)"
        by blast
      from Node.IH [OF mem(4) wfc(4)] obtain r4 where r4: "search c4 q = Inr r4"
        "items_inside c4 \<longrightarrow> mset r4 = filter_mset (\<lambda>x. intersects q x) (items_of c4)"
        by blast
      have "mset (filter (\<lambda>x. intersects q x) (children ?n @ overlappingChildren ?n) @
                r1 @ r2 @ r3 @ r4) =
            filter_mset (\<lambda>x. intersects q x) (items_of ?n)" if ins: "quads_inside ?n"
      proof -
        from ins qs have "items_inside c1" "items_inside c2" "items_inside c3" "items_inside c4"
          by (simp_all add: quads_inside_def)
        with r1 r2 r3 r4 qs show ?thesis
          by (simp add: items_of_sel [of ?n])
      qed
      with search_inner [OF True qs r1(1) r2(1) r3(1) r4(1)] show ?thesis by simp
    qed
    with True items_inside_sel [of ?n] show ?thesis by auto
  qed
qed

lemma isLeaf_Node [simp]:
  "isLeaf (Node b mc md d (Quads qtl qtr qbl qbr) ch oc) \<longleftrightarrow> qtl = None"
  by (simp add: isLeaf_def qget_def)

text \<open>
  C1, as stated, for every tree built by \<^verbatim>\<open>create\<close> and a sequence of \<^verbatim>\<open>insert\<close> and
  \<^verbatim>\<open>batchInsert\<close> calls and every query: \<^verbatim>\<open>search\<close> returns exactly the stored items that
  intersect the query. It fails for an item outside the boundary of the root: the tree
  with boundary \<open>(0, 0, 200, 200)\<close> holds the item \<open>(300, 300, 1, 1)\<close>, the query
  \<open>(299, 299, 5, 5)\<close> intersects the item but not the boundary of the root, and \<^verbatim>\<open>search\<close>
  prunes at the root and returns nothing.
\<close>

theorem search_misses_an_item_outside_the_root:
  "build (rect 0 0 200 200) 4 4 [Insert (rect 300 300 1 1)] =
     Inr (Node (rect 0 0 200 200) 4 4 0 (Quads None None None None)
            [rect 300 300 1 1] []) \<and>
   search (Node (rect 0 0 200 200) 4 4 0 (Quads None None None None)
            [rect 300 300 1 1] []) (rect 299 299 5 5) = Inr [] \<and>
   intersects (rect 299 299 5 5) (rect 300 300 1 1)"
  by (simp add: build_def create_def node_def insert_item_leaf_nosplit addChild_def
        update_children_def isSplittable_def intersects_def)

text \<open>
  C1, amended: for every tree \<open>T\<close> built by \<^verbatim>\<open>create\<close> and any sequence of \<^verbatim>\<open>insert\<close>,
  \<^verbatim>\<open>batchInsert\<close> and \<^verbatim>\<open>clear\<close> calls, and every query, \<^verbatim>\<open>search\<close> returns a result. If the
  query intersects the boundary of the root, or if every stored item lies within the
  boundary of the root, the result holds exactly the stored items that intersect the
  query under the strict inequalities of \<^verbatim>\<open>intersects\<close>, each as often as it was
  inserted. If the query does not intersect the boundary of the root, the result is
  empty.
\<close>

theorem search_returns_the_stored_items_that_intersect:
  assumes "build b mc md cs = Inr T"
  shows "\<exists>xs. search T q = Inr xs \<and>
           (intersects b q \<or> (\<forall>i \<in> set (stored cs). within_bound b i) \<longrightarrow>
              mset xs = mset (filter (\<lambda>i. intersects q i) (stored cs))) \<and>
           (\<not> intersects b q \<longrightarrow> xs = [])"
proof -
  from build_tracks [OF assms]
  have T: "tracks T (stored cs)" "node_boundary T = b"
    by simp_all
  from T(1) have wf: "well_formed T" and qi: "quads_inside T"
    and it: "items_of T = mset (stored cs)"
    by (simp_all add: tracks_def)
  have ins: "items_inside T" if "\<forall>i \<in> set (stored cs). within_bound b i"
    using that qi it T(2) by (simp add: items_inside_sel [of T])
  from search_well_formed [OF wf, of q] obtain xs
    where xs: "search T q = Inr xs"
      "\<not> intersects (node_boundary T) q \<longrightarrow> xs = []"
      "intersects (node_boundary T) q \<and> quads_inside T \<longrightarrow>
         mset xs = filter_mset (\<lambda>x. intersects q x) (items_of T)"
      "items_inside T \<longrightarrow> mset xs = filter_mset (\<lambda>x. intersects q x) (items_of T)"
    by blast
  from xs(2) T(2) have 1: "\<not> intersects b q \<longrightarrow> xs = []" by simp
  from xs(3,4) qi ins T(2) it
  have 2: "intersects b q \<or> (\<forall>i \<in> set (stored cs). within_bound b i) \<longrightarrow>
      mset xs = mset (filter (\<lambda>i. intersects q i) (stored cs))"
    by auto
  from xs(1) 1 2 show ?thesis by blast
qed

theorem search_returns_the_stored_items_that_intersect_witness:
  "build (rect 0 0 200 200) 4 4
     [Insert (rect 190 190 20 20), BatchInsert [rect 67 24 1 1]] =
     Inr (Node (rect 0 0 200 200) 4 4 0 (Quads None None None None)
            [rect 190 190 20 20, rect 67 24 1 1] []) \<and>
   intersects (rect 0 0 200 200) (rect 180 180 15 15) \<and>
   stored [Insert (rect 190 190 20 20), BatchInsert [rect 67 24 1 1]] =
     [rect 190 190 20 20, rect 67 24 1 1] \<and>
   (\<exists>xs. search (Node (rect 0 0 200 200) 4 4 0 (Quads None None None None)
            [rect 190 190 20 20, rect 67 24 1 1] []) (rect 180 180 15 15) = Inr xs \<and>
      mset xs = mset [rect 190 190 20 20])"
proof -
  let ?T = "Node (rect 0 0 200 200) 4 4 0 (Quads None None None None)
            [rect 190 190 20 20, rect 67 24 1 1] []"
  have b: "build (rect 0 0 200 200) 4 4
     [Insert (rect 190 190 20 20), BatchInsert [rect 67 24 1 1]] = Inr ?T"
    by code_simp
  have i: "intersects (rect 0 0 200 200) (rect 180 180 15 15)"
    by (simp add: intersects_def)
  have s: "stored [Insert (rect 190 190 20 20), BatchInsert [rect 67 24 1 1]] =
     [rect 190 190 20 20, rect 67 24 1 1]"
    by (simp add: stored_def)
  have f: "filter (\<lambda>i. intersects (rect 180 180 15 15) i)
      [rect 190 190 20 20, rect 67 24 1 1] = [rect 190 190 20 20]"
    by (simp add: intersects_def)
  from search_returns_the_stored_items_that_intersect [OF b, of "rect 180 180 15 15"] i
  obtain xs where "search ?T (rect 180 180 15 15) = Inr xs"
    "mset xs = mset (filter (\<lambda>i. intersects (rect 180 180 15 15) i)
       (stored [Insert (rect 190 190 20 20), BatchInsert [rect 67 24 1 1]]))"
    by blast
  with b i s f show ?thesis by simp
qed


section \<open>The worked scenario\<close>

text \<open>
  C3. From \<^verbatim>\<open>create\<close> with boundary \<open>(0, 0, 200, 200)\<close>, \<open>maxChildren = 4\<close> and
  \<open>maxDepth = 4\<close>, inserting the nine rectangles of the scenario in their order gives the
  tree below, and searching it with the query \<open>(50, 50, 100, 100)\<close> returns exactly the
  four rectangles \<open>(49, 49, 2, 2)\<close>, \<open>(112, 57, 2, 2)\<close>, \<open>(64, 120, 5, 7)\<close> and
  \<open>(149, 121, 2, 1)\<close>, in this order.
\<close>

theorem worked_scenario:
  "build (rect 0 0 200 200) 4 4
     [Insert (rect 5 6 1 2), Insert (rect 67 24 1 1), Insert (rect 149 121 2 1),
      Insert (rect 189 76 1 1), Insert (rect 25 195 1 2), Insert (rect 99 0 5 2),
      Insert (rect 64 120 5 7), Insert (rect 112 57 2 2), Insert (rect 49 49 2 2)]
   = Inr (Node (rect 0 0 200 200) 4 4 0
       (Quads
         (Some (Node (rect 0 0 100 100) 4 4 1 (Quads None None None None)
            [rect 5 6 1 2, rect 67 24 1 1, rect 49 49 2 2] []))
         (Some (Node (rect 100 0 100 100) 4 4 1 (Quads None None None None)
            [rect 189 76 1 1, rect 112 57 2 2] []))
         (Some (Node (rect 0 100 100 100) 4 4 1 (Quads None None None None)
            [rect 25 195 1 2, rect 64 120 5 7] []))
         (Some (Node (rect 100 100 100 100) 4 4 1 (Quads None None None None)
            [rect 149 121 2 1] [])))
       [] [rect 99 0 5 2]) \<and>
   search (Node (rect 0 0 200 200) 4 4 0
       (Quads
         (Some (Node (rect 0 0 100 100) 4 4 1 (Quads None None None None)
            [rect 5 6 1 2, rect 67 24 1 1, rect 49 49 2 2] []))
         (Some (Node (rect 100 0 100 100) 4 4 1 (Quads None None None None)
            [rect 189 76 1 1, rect 112 57 2 2] []))
         (Some (Node (rect 0 100 100 100) 4 4 1 (Quads None None None None)
            [rect 25 195 1 2, rect 64 120 5 7] []))
         (Some (Node (rect 100 100 100 100) 4 4 1 (Quads None None None None)
            [rect 149 121 2 1] [])))
       [] [rect 99 0 5 2]) (rect 50 50 100 100) =
     Inr [rect 49 49 2 2, rect 112 57 2 2, rect 64 120 5 7, rect 149 121 2 1]"
proof (rule conjI)
  show "build (rect 0 0 200 200) 4 4
     [Insert (rect 5 6 1 2), Insert (rect 67 24 1 1), Insert (rect 149 121 2 1),
      Insert (rect 189 76 1 1), Insert (rect 25 195 1 2), Insert (rect 99 0 5 2),
      Insert (rect 64 120 5 7), Insert (rect 112 57 2 2), Insert (rect 49 49 2 2)]
   = Inr (Node (rect 0 0 200 200) 4 4 0
       (Quads
         (Some (Node (rect 0 0 100 100) 4 4 1 (Quads None None None None)
            [rect 5 6 1 2, rect 67 24 1 1, rect 49 49 2 2] []))
         (Some (Node (rect 100 0 100 100) 4 4 1 (Quads None None None None)
            [rect 189 76 1 1, rect 112 57 2 2] []))
         (Some (Node (rect 0 100 100 100) 4 4 1 (Quads None None None None)
            [rect 25 195 1 2, rect 64 120 5 7] []))
         (Some (Node (rect 100 100 100 100) 4 4 1 (Quads None None None None)
            [rect 149 121 2 1] [])))
       [] [rect 99 0 5 2])"
    by code_simp
next
  show "search (Node (rect 0 0 200 200) 4 4 0
       (Quads
         (Some (Node (rect 0 0 100 100) 4 4 1 (Quads None None None None)
            [rect 5 6 1 2, rect 67 24 1 1, rect 49 49 2 2] []))
         (Some (Node (rect 100 0 100 100) 4 4 1 (Quads None None None None)
            [rect 189 76 1 1, rect 112 57 2 2] []))
         (Some (Node (rect 0 100 100 100) 4 4 1 (Quads None None None None)
            [rect 25 195 1 2, rect 64 120 5 7] []))
         (Some (Node (rect 100 100 100 100) 4 4 1 (Quads None None None None)
            [rect 149 121 2 1] [])))
       [] [rect 99 0 5 2]) (rect 50 50 100 100) =
     Inr [rect 49 49 2 2, rect 112 57 2 2, rect 64 120 5 7, rect 149 121 2 1]"
    by (simp add: intersects_def)
qed

section \<open>Overflow\<close>

lemma api_calls_map_Insert: "api_calls n (map Insert items) = batchInsert n items"
  by (induction items arbitrary: n) (simp_all split: sum.splits)

lemma api_calls_append:
  "api_calls t (cs1 @ cs2) =
     (case api_calls t cs1 of Inl e \<Rightarrow> Inl e | Inr t' \<Rightarrow> api_calls t' cs2)"
  by (induction cs1 arbitrary: t) (simp_all split: sum.splits)

lemma insert_item_keeps_inner:
  assumes "\<not> isLeaf n" and "insert_item n item = Inr n'"
  shows "\<not> isLeaf n' \<and> children n' = children n"
proof -
  let ?k = "determineQuadrant n item"
  from assms obtain c where c: "qget (quadrants n) ?k = Some c"
    by (subst (asm) insert_item.simps) (auto simp: Let_def split: option.splits)
  show ?thesis
  proof (cases "within_bound (node_boundary c) item")
    case True
    with assms c obtain c' where "insert_item c item = Inr c'"
      and "n' = update_quadrants (\<lambda>q. qset q ?k (Some c')) n"
      by (subst (asm) insert_item.simps) (auto simp: Let_def split: sum.splits)
    with assms(1) isLeaf_qset show ?thesis by (simp add: update_quadrants_def)
  next
    case False
    from insert_item_inner_overlap [OF assms(1) c False] assms
    show ?thesis by (auto simp: addOverlappingChild_def)
  qed
qed

lemma batchInsert_keeps_inner:
  "\<not> isLeaf n \<Longrightarrow> batchInsert n items = Inr n' \<Longrightarrow> \<not> isLeaf n'"
proof (induction items arbitrary: n)
  case Nil
  then show ?case by simp
next
  case (Cons i items)
  from Cons.prems(2) obtain m where m: "insert_item n i = Inr m" "batchInsert m items = Inr n'"
    by (auto split: sum.splits)
  from insert_item_keeps_inner [OF Cons.prems(1) m(1)] have "\<not> isLeaf m" by simp
  from Cons.IH [OF this m(2)] show ?case .
qed

lemma insert_item_split_cases:
  assumes "isLeaf n" and "isSplittable (addChild n item)" and "insert_item n item = Inr n'"
  shows "\<exists>s r. split (addChild n item) = Inr s \<and> insert_reduce s (children s) = Inr r \<and>
           n' = update_children (\<lambda>l. []) r"
  using assms
  by (subst (asm) insert_item.simps) (auto simp: Let_def split: sum.splits)

lemma insert_item_overflow:
  assumes wf: "well_formed n" and leaf: "isLeaf n" and sp: "isSplittable (addChild n item)"
    and r: "insert_item n item = Inr n'"
  shows "well_formed n' \<and> \<not> isLeaf n' \<and> children n' = []"
proof -
  let ?u = "addChild n item"
  from insert_item_split_cases [OF leaf sp r] obtain s r'
    where s: "split ?u = Inr s" and r': "insert_reduce s (children s) = Inr r'"
      and n': "n' = update_children (\<lambda>l. []) r'"
    by blast
  from step_ok_addChild [OF wf leaf, of item] have wfu: "well_formed ?u"
    by (simp add: step_ok_def)
  from leaf have leafu: "isLeaf ?u" by (simp add: addChild_def)
  from sp have lt: "depth ?u < maxDepth ?u" by (simp add: isSplittable_def Let_def)
  from step_ok_split [OF wfu leafu lt s] have ns: "\<not> isLeaf s" and st: "step_ok ?u {#} s"
    by simp_all
  from st have wfs: "well_formed s" by (simp add: step_ok_def)
  from insert_reduce_step_ok [OF wfs r'] ns have "well_formed r'" "\<not> isLeaf r'"
    by (simp_all add: step_ok_def)
  with n' show ?thesis by simp
qed

lemma api_calls_fill_leaf:
  assumes "isLeaf t" and "int (length (children t)) + int (length xs) \<le> maxChildren t"
  shows "api_calls t (map Insert xs) = Inr (update_children (\<lambda>l. l @ xs) t)"
  using assms
proof (induction xs arbitrary: t)
  case Nil
  then show ?case by (simp add: update_children_def)
next
  case (Cons x xs)
  let ?u = "addChild t x"
  from Cons.prems(2) have "\<not> isSplittable ?u"
    by (simp add: isSplittable_def Let_def addChild_def update_children_def)
  from insert_item_leaf_nosplit [OF Cons.prems(1) this]
  have 1: "insert_item t x = Inr ?u" .
  have 2: "isLeaf ?u" using Cons.prems(1) by (simp add: addChild_def)
  have 3: "int (length (children ?u)) + int (length xs) \<le> maxChildren ?u"
    using Cons.prems(2) by (simp add: addChild_def update_children_def)
  from Cons.IH [OF 2 3] 1 show ?case
    by (simp add: addChild_def update_children_def)
qed

text \<open>
  C4, as stated, for every boundary: the \<open>k + 1\<close> inserts give a split root. It fails
  where a mid-point overflows. \<^verbatim>\<open>boundary(3 * 2^1022, 0, 2^1023, 1)\<close> is a boundary of
  finite numbers; with \<open>maxChildren = 1\<close> the second insert splits the root, the
  horizontal mid-point \<open>3 * 2^1022 + 2^1022\<close> is an infinity, \<^verbatim>\<open>assert.number\<close> rejects
  it, and the insert fails instead of returning a tree.
\<close>

theorem overflowing_midpoint_aborts_the_split:
  "boundary (3 * 2 ^ 1022) 0 (2 ^ 1023) 1 = Inr (rect (3 * 2 ^ 1022) 0 (2 ^ 1023) 1) \<and>
   build (rect (3 * 2 ^ 1022) 0 (2 ^ 1023) 1) 1 1
     (map Insert [rect 5 6 1 2, rect 67 24 1 1]) = Inl AssertionError"
proof (rule conjI)
  show "boundary (3 * 2 ^ 1022) 0 (2 ^ 1023) 1 = Inr (rect (3 * 2 ^ 1022) 0 (2 ^ 1023) 1)"
    by (simp add: boundary_def position_def is_number_def overflow_limit_def)
next
  let ?b = "rect (3 * 2 ^ 1022) 0 (2 ^ 1023) 1"
  let ?t = "Node ?b 1 1 0 (Quads None None None None) [] []"
  let ?u = "Node ?b 1 1 0 (Quads None None None None) [rect 5 6 1 2] []"
  have 1: "create ?b 1 1 = Inr ?t"
    by (simp add: create_def node_def)
  have 2: "insert_item ?t (rect 5 6 1 2) = Inr ?u"
    by (subst insert_item_leaf_nosplit)
       (simp_all add: isSplittable_def addChild_def update_children_def)
  have 3: "split (addChild ?u (rect 67 24 1 1)) = Inl AssertionError"
    by (simp add: addChild_def update_children_def split_def Let_def node_def boundary_def
          position_def is_number_def overflow_limit_def)
  have 4: "insert_item ?u (rect 67 24 1 1) = Inl AssertionError"
    by (rule insert_item_split_fails [OF _ _ 3])
       (simp_all add: isSplittable_def addChild_def update_children_def)
  from 1 2 4 show "build ?b 1 1 (map Insert [rect 5 6 1 2, rect 67 24 1 1]) =
      Inl AssertionError"
    by (simp add: build_def)
qed

text \<open>
  C4, amended: for every boundary, every \<open>maxChildren = k > 0\<close> and \<open>maxDepth > 0\<close>, and
  every sequence of \<open>k + 1\<close> items: whenever inserting the items one at a time into the
  tree that \<^verbatim>\<open>create\<close> returns gives a tree, its root has no direct items and its four
  quadrants are populated; and the inserts do give a tree when the boundary \<open>(x, y, w, h)\<close>
  has \<open>|x| + |w| + |h|\<close> and \<open>|y| + |w| + |h|\<close> below the limit of the numbers, so that no
  half and no mid-point of any split overflows.
\<close>

theorem overflow_triggers_split:
  assumes "0 < k" and "0 < md" and "length items = nat k + 1"
  shows "(build b k md (map Insert items) = Inr T \<longrightarrow>
            children T = [] \<and>
            (\<exists>c1 c2 c3 c4. quadrants T = Quads (Some c1) (Some c2) (Some c3) (Some c4))) \<and>
         (fits b \<longrightarrow> (\<exists>T'. build b k md (map Insert items) = Inr T'))"
proof -
  from assms(3) obtain xs y where items: "items = xs @ [y]" and len: "length xs = nat k"
    by (cases items rule: rev_cases) auto
  let ?t = "Node b k md 0 (Quads None None None None) [] []"
  let ?t' = "Node b k md 0 (Quads None None None None) xs []"
  have create: "create b k md = Inr ?t"
    using assms(1,2) by (rule create_Inr)
  have "api_calls ?t (map Insert xs) = Inr (update_children (\<lambda>l. l @ xs) ?t)"
    by (rule api_calls_fill_leaf) (use assms(1) len in simp_all)
  then have fill: "api_calls ?t (map Insert xs) = Inr ?t'"
    by (simp add: update_children_def)
  have build: "build b k md (map Insert items) = insert_item ?t' y"
    by (simp add: build_def create items api_calls_append fill split: sum.splits)
  have wf: "well_formed ?t'" using assms(1,2) by simp
  have sp: "isSplittable (addChild ?t' y)"
    using assms(1,2) len by (simp add: isSplittable_def addChild_def update_children_def)
  have 1: "children T = [] \<and>
      (\<exists>c1 c2 c3 c4. quadrants T = Quads (Some c1) (Some c2) (Some c3) (Some c4))"
    if "build b k md (map Insert items) = Inr T"
  proof -
    from that build have "insert_item ?t' y = Inr T" by simp
    from insert_item_overflow [OF wf _ sp this]
    have T: "well_formed T" "\<not> isLeaf T" "children T = []" by simp_all
    from well_formed_inner [OF T(1,2)] T(3) show ?thesis by blast
  qed
  have 2: "\<exists>T'. build b k md (map Insert items) = Inr T'" if "fits b"
    using build_returns [OF assms(1,2) that] by blast
  from 1 2 show ?thesis by blast
qed

theorem overflow_triggers_split_witness:
  "(0::int) < 1 \<and> (0::int) < 1 \<and>
   length [rect 5 6 1 2, rect 67 24 1 1] = nat 1 + 1 \<and>
   fits (rect 0 0 200 100) \<and>
   (\<exists>T c1 c2 c3 c4.
      build (rect 0 0 200 100) 1 1
        (map Insert [rect 5 6 1 2, rect 67 24 1 1]) = Inr T \<and>
      children T = [] \<and> quadrants T = Quads (Some c1) (Some c2) (Some c3) (Some c4))"
proof -
  have h: "length [rect 5 6 1 2, rect 67 24 1 1] = nat 1 + 1"
    by simp
  have f: "fits (rect 0 0 200 100)"
    by (simp add: fits_def overflow_limit_numeral)
  note L = overflow_triggers_split [of 1 1, OF _ _ h, of "rect 0 0 200 100"]
  from L f obtain T where T: "build (rect 0 0 200 100) 1 1
      (map Insert [rect 5 6 1 2, rect 67 24 1 1]) = Inr T"
    by auto
  from L [of T] T have "children T = []"
    "\<exists>c1 c2 c3 c4. quadrants T = Quads (Some c1) (Some c2) (Some c3) (Some c4)"
    by simp_all
  with T f show ?thesis by auto
qed


section \<open>Split and clear\<close>

lemma split_frame:
  "split n = Inr s \<Longrightarrow>
   node_boundary s = node_boundary n \<and> depth s = depth n \<and>
   maxChildren s = maxChildren n \<and> maxDepth s = maxDepth n \<and>
   children s = children n \<and> overlappingChildren s = overlappingChildren n"
  by (auto simp: split_def Let_def update_quadrants_def split: sum.splits)

lemma split_valid:
  "0 < maxChildren n \<Longrightarrow> 0 < maxDepth n \<Longrightarrow> 0 \<le> depth n \<Longrightarrow>
   split_in_range (node_boundary n) \<Longrightarrow> \<exists>s. split n = Inr s"
  using split_Inr_iff [of n] by simp

lemma Node_clear_leaf:
  "isLeaf n \<Longrightarrow>
   Node_clear n = Inr (update_overlappingChildren (\<lambda>l. []) (update_children (\<lambda>l. []) n))"
  by (cases n; cases "quadrants n") (simp add: Let_def)

lemma Node_clear_inner:
  "quadrants n = Quads (Some c1) (Some c2) (Some c3) (Some c4) \<Longrightarrow>
   Node_clear c1 = Inr d1 \<Longrightarrow> Node_clear c2 = Inr d2 \<Longrightarrow>
   Node_clear c3 = Inr d3 \<Longrightarrow> Node_clear c4 = Inr d4 \<Longrightarrow>
   Node_clear n =
     Inr (Node (node_boundary n) (maxChildren n) (maxDepth n) (depth n)
            (Quads None None None None) [] [])"
  by (cases n)
     (simp add: Let_def update_quadrants_def update_children_def
        update_overlappingChildren_def)

lemma Node_clear_well_formed:
  "well_formed n \<Longrightarrow>
   Node_clear n =
     Inr (Node (node_boundary n) (maxChildren n) (maxDepth n) (depth n)
            (Quads None None None None) [] [])"
proof (induction n)
  case (Node b mc md d qs ch oc)
  let ?n = "Node b mc md d qs ch oc"
  note wf = \<open>well_formed ?n\<close>
  show ?case
  proof (cases "isLeaf ?n")
    case True
    from well_formed_leaf [OF wf True] Node_clear_leaf [OF True] show ?thesis
      by (simp add: update_children_def update_overlappingChildren_def)
  next
    case False
    from well_formed_inner [OF wf False] obtain c1 c2 c3 c4
      where qs: "quadrants ?n = Quads (Some c1) (Some c2) (Some c3) (Some c4)"
        and wfc: "well_formed c1" "well_formed c2" "well_formed c3" "well_formed c4"
      by blast
    from qs have mem: "c1 \<in> set_quads qs" "c2 \<in> set_quads qs"
      "c3 \<in> set_quads qs" "c4 \<in> set_quads qs"
      by simp_all
    show ?thesis
      by (rule Node_clear_inner [OF qs Node.IH [OF mem(1) wfc(1)] Node.IH [OF mem(2) wfc(2)]
            Node.IH [OF mem(3) wfc(3)] Node.IH [OF mem(4) wfc(4)]])
  qed
qed

lemma sample_create: "create (rect 0 0 200 100) 4 4 = Inr sample_root"
  by (simp add: create_def node_def sample_root_def)

lemma sample_split_eq: "split sample_leaf = Inr sample_split"
  unfolding sample_leaf_def sample_split_def by code_simp

lemma sample_insert: "api_calls sample_split (map Insert [rect 10 20 3 3]) = Inr sample_inserted"
  unfolding sample_inserted_def sample_split_def by code_simp

lemma sample_well_formed: "well_formed sample_split"
  by (simp add: sample_split_def child_params_def)


lemma sample_leaf_fields:
  "0 < maxChildren sample_leaf" "0 < maxDepth sample_leaf" "0 \<le> depth sample_leaf"
  "split_in_range (node_boundary sample_leaf)"
  by (simp_all add: sample_leaf_def split_in_range_def is_number_def overflow_limit_numeral)

lemma sample_all_fit: "all_fit sample_split"
  by (simp add: sample_split_def fits_def overflow_limit_numeral)

lemma create_isLeaf: "create b mc md = Inr t \<Longrightarrow> isLeaf t"
  by (auto simp: create_def node_def split: if_splits)

lemma create_default_Inr:
  "create_default b = Inr (Node b 4 4 0 (Quads None None None None) [] [])"
  by (simp add: create_default_def create_Inr)

text \<open>
  C5. The node that \<^verbatim>\<open>create\<close> returns is a leaf, for every boundary (with the default
  thresholds, and with any thresholds that \<^verbatim>\<open>create\<close> accepts). Whenever \<^verbatim>\<open>split\<close>
  returns a node, the node is not a leaf; and \<^verbatim>\<open>split\<close> returns a node for every node
  with \<open>maxChildren > 0\<close>, \<open>maxDepth > 0\<close> and \<open>depth \<ge> 0\<close>, as the constructor of nodes
  asserts, whose halves and mid-points are in the range of the numbers. A node that is
  not a leaf is not a leaf after any sequence of \<^verbatim>\<open>insert\<close> calls, and on a well-formed
  node whose boundaries are within the bound the calls return.
\<close>

theorem leaf_invariant:
  "(\<exists>t0. create_default b = Inr t0 \<and> isLeaf t0) \<and>
   (create b mc md = Inr t \<longrightarrow> isLeaf t) \<and>
   (0 < maxChildren n \<and> 0 < maxDepth n \<and> 0 \<le> depth n \<and>
    split_in_range (node_boundary n) \<longrightarrow>
      (\<exists>s'. split n = Inr s' \<and> \<not> isLeaf s')) \<and>
   (split n = Inr s \<longrightarrow> \<not> isLeaf s) \<and>
   (\<not> isLeaf m \<and> api_calls m (map Insert items) = Inr m' \<longrightarrow> \<not> isLeaf m') \<and>
   (well_formed m \<and> all_fit m \<and> \<not> isLeaf m \<longrightarrow>
      (\<exists>m''. api_calls m (map Insert items) = Inr m'' \<and> \<not> isLeaf m''))"
proof -
  have 1: "\<exists>t0. create_default b = Inr t0 \<and> isLeaf t0"
    by (simp add: create_default_Inr)
  have 2: "create b mc md = Inr t \<longrightarrow> isLeaf t"
    using create_isLeaf by blast
  have 3: "0 < maxChildren n \<and> 0 < maxDepth n \<and> 0 \<le> depth n \<and>
    split_in_range (node_boundary n) \<longrightarrow>
      (\<exists>s'. split n = Inr s' \<and> \<not> isLeaf s')"
    using split_valid [of n] split_not_leaf by blast
  have 4: "split n = Inr s \<longrightarrow> \<not> isLeaf s"
    using split_not_leaf by blast
  have 5: "\<not> isLeaf m \<and> api_calls m (map Insert items) = Inr m' \<longrightarrow> \<not> isLeaf m'"
    using batchInsert_keeps_inner [of m items m'] by (simp add: api_calls_map_Insert)
  have 6: "well_formed m \<and> all_fit m \<and> \<not> isLeaf m \<longrightarrow>
      (\<exists>m''. api_calls m (map Insert items) = Inr m'' \<and> \<not> isLeaf m'')"
    using batchInsert_returns [of m items] batchInsert_keeps_inner [of m items]
    by (auto simp: api_calls_map_Insert)
  from 1 2 3 4 5 6 show ?thesis by blast
qed

theorem leaf_invariant_witness:
  "create (rect 0 0 200 100) 4 4 = Inr sample_root \<and> isLeaf sample_root \<and>
   0 < maxChildren sample_leaf \<and> 0 < maxDepth sample_leaf \<and> 0 \<le> depth sample_leaf \<and>
   split_in_range (node_boundary sample_leaf) \<and>
   split sample_leaf = Inr sample_split \<and> \<not> isLeaf sample_split \<and>
   well_formed sample_split \<and> all_fit sample_split \<and>
   api_calls sample_split (map Insert [rect 10 20 3 3]) = Inr sample_inserted \<and>
   \<not> isLeaf sample_inserted"
proof -
  note L = leaf_invariant [of "rect 0 0 200 100" 4 4 sample_root sample_leaf
    sample_split sample_split "[rect 10 20 3 3]" sample_inserted]
  from L sample_create have 1: "isLeaf sample_root" by blast
  from L sample_split_eq have 2: "\<not> isLeaf sample_split" by blast
  from L 2 sample_insert have 3: "\<not> isLeaf sample_inserted" by blast
  from 1 2 3 sample_create sample_leaf_fields sample_split_eq sample_well_formed
    sample_all_fit sample_insert
  show ?thesis by blast
qed

text \<open>
  C8. \<^verbatim>\<open>split\<close> changes only the quadrants: whenever it returns, the boundary, the
  depth, the thresholds, the direct items and the overlapping items of the result are
  those of the node; and \<^verbatim>\<open>split\<close> returns a result for every node with
  \<open>maxChildren > 0\<close>, \<open>maxDepth > 0\<close> and \<open>depth \<ge> 0\<close> whose halves and mid-points are in
  the range of the numbers.
\<close>

theorem split_changes_only_the_quadrants:
  "(split n = Inr s \<longrightarrow>
      node_boundary s = node_boundary n \<and> depth s = depth n \<and>
      maxChildren s = maxChildren n \<and> maxDepth s = maxDepth n \<and>
      children s = children n \<and> overlappingChildren s = overlappingChildren n) \<and>
   (0 < maxChildren n \<and> 0 < maxDepth n \<and> 0 \<le> depth n \<and>
    split_in_range (node_boundary n) \<longrightarrow> (\<exists>s'. split n = Inr s'))"
  using split_frame [of n s] split_valid [of n] by blast

theorem split_changes_only_the_quadrants_witness:
  "0 < maxChildren sample_leaf \<and> 0 < maxDepth sample_leaf \<and> 0 \<le> depth sample_leaf \<and>
   split_in_range (node_boundary sample_leaf) \<and>
   split sample_leaf = Inr sample_split \<and>
   node_boundary sample_split = node_boundary sample_leaf \<and>
   depth sample_split = depth sample_leaf \<and>
   maxChildren sample_split = maxChildren sample_leaf \<and>
   maxDepth sample_split = maxDepth sample_leaf \<and>
   children sample_split = children sample_leaf \<and>
   children sample_split = [rect 5 6 1 2] \<and>
   overlappingChildren sample_split = overlappingChildren sample_leaf \<and>
   overlappingChildren sample_split = [rect 99 0 5 2]"
proof -
  have c: "children sample_split = [rect 5 6 1 2]"
    "overlappingChildren sample_split = [rect 99 0 5 2]"
    by (simp_all add: sample_split_def)
  from split_changes_only_the_quadrants [of sample_leaf sample_split]
    sample_split_eq sample_leaf_fields c
  show ?thesis by blast
qed

text \<open>
  C7. For every tree \<open>t\<close>, \<^verbatim>\<open>clear\<close> returns a node \<open>c\<close> with
  \<^verbatim>\<open>clear(clear(t)) = clear(t)\<close>; \<open>c\<close> is a leaf with empty item lists, \<^verbatim>\<open>search\<close> on it
  returns the empty list for every query, and its boundary, \<open>maxChildren\<close>, \<open>maxDepth\<close>
  and \<open>depth\<close> are those of \<open>t\<close>. On a well-formed tree the \<^verbatim>\<open>clear\<close> of the Node module
  returns the same node, and clearing that node again changes nothing.
\<close>

theorem clear_resets_the_tree:
  "\<exists>c. clear (Some t) = Some c \<and> clear (clear (Some t)) = clear (Some t) \<and>
     isLeaf c \<and> search c q = Inr [] \<and>
     node_boundary c = node_boundary t \<and> maxChildren c = maxChildren t \<and>
     maxDepth c = maxDepth t \<and> depth c = depth t \<and>
     quadrants c = Quads None None None None \<and>
     children c = [] \<and> overlappingChildren c = [] \<and>
     (well_formed t \<longrightarrow> Node_clear t = Inr c \<and> Node_clear c = Inr c)"
proof -
  let ?c = "Node (node_boundary t) (maxChildren t) (maxDepth t) (depth t)
    (Quads None None None None) [] []"
  have 1: "clear (Some t) = Some ?c" by (rule clear_Some)
  have 2: "clear (Some ?c) = Some ?c" by (simp add: clear_Some)
  have 3: "search ?c q = Inr []" by simp
  have 4: "Node_clear ?c = Inr ?c"
    by (simp add: Let_def update_children_def update_overlappingChildren_def)
  from 1 2 3 4 Node_clear_well_formed [of t] show ?thesis by simp
qed


theorem clear_resets_the_tree_witness:
  "well_formed sample_inserted \<and>
   (\<exists>c. clear (Some sample_inserted) = Some c \<and> Node_clear sample_inserted = Inr c \<and>
      Node_clear c = Inr c \<and> clear (Some c) = Some c \<and> isLeaf c \<and>
      search c (rect 0 0 200 100) = Inr [] \<and>
      node_boundary c = rect 0 0 200 100 \<and> maxChildren c = 4 \<and>
      maxDepth c = 4 \<and> depth c = 0)"
proof -
  have wf: "well_formed sample_inserted"
    by (simp add: sample_inserted_def child_params_def)
  from clear_resets_the_tree [of sample_inserted "rect 0 0 200 100"]
  obtain c where c: "clear (Some sample_inserted) = Some c"
    "clear (clear (Some sample_inserted)) = clear (Some sample_inserted)"
    "isLeaf c" "search c (rect 0 0 200 100) = Inr []"
    "node_boundary c = node_boundary sample_inserted"
    "maxChildren c = maxChildren sample_inserted"
    "maxDepth c = maxDepth sample_inserted" "depth c = depth sample_inserted"
    "well_formed sample_inserted \<longrightarrow> Node_clear sample_inserted = Inr c \<and> Node_clear c = Inr c"
    by blast
  from c(1,2) have "clear (Some c) = Some c" by simp
  moreover from c(5-8) have "node_boundary c = rect 0 0 200 100" "maxChildren c = 4"
    "maxDepth c = 4" "depth c = 0"
    by (simp_all add: sample_inserted_def)
  ultimately show ?thesis using wf c by blast
qed


section \<open>Depth\<close>

lemma nodes_of_sel:
  "nodes_of n = n #
     (case top_left (quadrants n) of None \<Rightarrow> [] | Some c \<Rightarrow> nodes_of c) @
     (case top_right (quadrants n) of None \<Rightarrow> [] | Some c \<Rightarrow> nodes_of c) @
     (case bottom_left (quadrants n) of None \<Rightarrow> [] | Some c \<Rightarrow> nodes_of c) @
     (case bottom_right (quadrants n) of None \<Rightarrow> [] | Some c \<Rightarrow> nodes_of c)"
  by (cases n; cases "quadrants n") simp

lemma height_of_sel:
  "height_of n =
     max (max (case top_left (quadrants n) of None \<Rightarrow> 0 | Some c \<Rightarrow> Suc (height_of c))
              (case top_right (quadrants n) of None \<Rightarrow> 0 | Some c \<Rightarrow> Suc (height_of c)))
         (max (case bottom_left (quadrants n) of None \<Rightarrow> 0 | Some c \<Rightarrow> Suc (height_of c))
              (case bottom_right (quadrants n) of None \<Rightarrow> 0 | Some c \<Rightarrow> Suc (height_of c)))"
  by (cases n; cases "quadrants n") simp

lemma levels_left_sel:
  "levels_left n =
     (case top_left (quadrants n) of
        None \<Rightarrow> nat (maxDepth n - depth n)
      | Some c \<Rightarrow>
          Suc (max (max (levels_left c)
                 (case top_right (quadrants n) of None \<Rightarrow> 0 | Some c2 \<Rightarrow> levels_left c2))
               (max (case bottom_left (quadrants n) of None \<Rightarrow> 0 | Some c3 \<Rightarrow> levels_left c3)
                 (case bottom_right (quadrants n) of None \<Rightarrow> 0 | Some c4 \<Rightarrow> levels_left c4))))"
  by (cases n; cases "quadrants n") (simp split: option.splits)

lemma well_formed_inner_depth:
  assumes "well_formed m" "\<not> isLeaf m"
  shows "depth m < maxDepth m"
proof -
  from well_formed_inner [OF assms] obtain c
    where "well_formed c" "child_params (maxChildren m) (maxDepth m) (depth m) c"
    by blast
  with well_formed_params [of c] show ?thesis by (simp add: child_params_def)
qed

lemma well_formed_nodes:
  "well_formed T \<Longrightarrow> m \<in> set (nodes_of T) \<Longrightarrow>
   well_formed m \<and> maxDepth m = maxDepth T \<and> maxChildren m = maxChildren T"
proof (induction T)
  case (Node b mc md d qs ch oc)
  let ?n = "Node b mc md d qs ch oc"
  note wf = \<open>well_formed ?n\<close>
  show ?case
  proof (cases "isLeaf ?n")
    case True
    from well_formed_leaf [OF wf True] Node.prems(2) have "m = ?n"
      by (simp add: nodes_of_sel [of ?n])
    with wf show ?thesis by simp
  next
    case False
    from well_formed_inner [OF wf False] obtain c1 c2 c3 c4
      where qs: "quadrants ?n = Quads (Some c1) (Some c2) (Some c3) (Some c4)"
        and wfc: "well_formed c1" "well_formed c2" "well_formed c3" "well_formed c4"
        and cp: "child_params (maxChildren ?n) (maxDepth ?n) (depth ?n) c1"
          "child_params (maxChildren ?n) (maxDepth ?n) (depth ?n) c2"
          "child_params (maxChildren ?n) (maxDepth ?n) (depth ?n) c3"
          "child_params (maxChildren ?n) (maxDepth ?n) (depth ?n) c4"
      by blast
    from qs have mem: "c1 \<in> set_quads qs" "c2 \<in> set_quads qs"
      "c3 \<in> set_quads qs" "c4 \<in> set_quads qs"
      by simp_all
    from Node.prems(2) qs consider "m = ?n" | "m \<in> set (nodes_of c1)"
      | "m \<in> set (nodes_of c2)" | "m \<in> set (nodes_of c3)" | "m \<in> set (nodes_of c4)"
      by (auto simp: nodes_of_sel [of ?n])
    then show ?thesis
    proof cases
      case 1
      with wf show ?thesis by simp
    next
      case 2
      from Node.IH [OF mem(1) wfc(1) 2] cp(1) show ?thesis by (simp add: child_params_def)
    next
      case 3
      from Node.IH [OF mem(2) wfc(2) 3] cp(2) show ?thesis by (simp add: child_params_def)
    next
      case 4
      from Node.IH [OF mem(3) wfc(3) 4] cp(3) show ?thesis by (simp add: child_params_def)
    next
      case 5
      from Node.IH [OF mem(4) wfc(4) 5] cp(4) show ?thesis by (simp add: child_params_def)
    qed
  qed
qed

lemma well_formed_height:
  "well_formed n \<Longrightarrow>
   int (height_of n) \<le> maxDepth n - depth n \<and> int (levels_left n) \<le> maxDepth n - depth n"
proof (induction n)
  case (Node b mc md d qs ch oc)
  let ?n = "Node b mc md d qs ch oc"
  note wf = \<open>well_formed ?n\<close>
  show ?case
  proof (cases "isLeaf ?n")
    case True
    from well_formed_leaf [OF wf True] well_formed_params [OF wf] show ?thesis
      by (simp add: height_of_sel [of ?n] levels_left_sel [of ?n])
  next
    case False
    from well_formed_inner [OF wf False] obtain c1 c2 c3 c4
      where qs: "quadrants ?n = Quads (Some c1) (Some c2) (Some c3) (Some c4)"
        and wfc: "well_formed c1" "well_formed c2" "well_formed c3" "well_formed c4"
        and cp: "child_params (maxChildren ?n) (maxDepth ?n) (depth ?n) c1"
          "child_params (maxChildren ?n) (maxDepth ?n) (depth ?n) c2"
          "child_params (maxChildren ?n) (maxDepth ?n) (depth ?n) c3"
          "child_params (maxChildren ?n) (maxDepth ?n) (depth ?n) c4"
      by blast
    from qs have mem: "c1 \<in> set_quads qs" "c2 \<in> set_quads qs"
      "c3 \<in> set_quads qs" "c4 \<in> set_quads qs"
      by simp_all
    from Node.IH [OF mem(1) wfc(1)] Node.IH [OF mem(2) wfc(2)]
      Node.IH [OF mem(3) wfc(3)] Node.IH [OF mem(4) wfc(4)] cp
    have "int (height_of c1) \<le> md - d - 1" "int (height_of c2) \<le> md - d - 1"
      "int (height_of c3) \<le> md - d - 1" "int (height_of c4) \<le> md - d - 1"
      "int (levels_left c1) \<le> md - d - 1" "int (levels_left c2) \<le> md - d - 1"
      "int (levels_left c3) \<le> md - d - 1" "int (levels_left c4) \<le> md - d - 1"
      by (simp_all add: child_params_def)
    with qs show ?thesis
      by (simp add: height_of_sel [of ?n] levels_left_sel [of ?n] max_def)
  qed
qed

lemma insert_item_at_maxDepth:
  "isLeaf n \<Longrightarrow> maxDepth n \<le> depth n \<Longrightarrow> insert_item n item = Inr (addChild n item)"
  by (rule insert_item_leaf_nosplit)
     (simp_all add: isSplittable_def Let_def addChild_def update_children_def)


lemma sample_full_built:
  "build (rect 0 0 200 200) 1 1
     [Insert (rect 5 6 1 2), BatchInsert [rect 67 24 1 1, rect 10 10 1 1]] =
   Inr sample_full"
  unfolding sample_full_def sample_deep_leaf_def by code_simp

lemma sample_deep_leaf_node: "sample_deep_leaf \<in> set (nodes_of sample_full)"
  by (simp add: sample_full_def sample_deep_leaf_def)

lemma sample_deep_leaf_depth: "depth sample_deep_leaf = maxDepth sample_deep_leaf"
  by (simp add: sample_deep_leaf_def)

lemma sample_full_inner: "\<not> isLeaf sample_full"
  by (simp add: sample_full_def)

lemma sample_full_root: "sample_full \<in> set (nodes_of sample_full)"
  by (simp add: sample_full_def)

lemma all_fit_nodes:
  "all_fit T \<Longrightarrow> m \<in> set (nodes_of T) \<Longrightarrow> all_fit m"
proof (induction T)
  case (Node b mc md d qs ch oc)
  let ?n = "Node b mc md d qs ch oc"
  obtain a1 a2 a3 a4 where qs: "qs = Quads a1 a2 a3 a4" by (cases qs)
  from Node.prems(2) qs consider "m = ?n"
    | c where "a1 = Some c" "m \<in> set (nodes_of c)"
    | c where "a2 = Some c" "m \<in> set (nodes_of c)"
    | c where "a3 = Some c" "m \<in> set (nodes_of c)"
    | c where "a4 = Some c" "m \<in> set (nodes_of c)"
    by (auto split: option.splits)
  then show ?case
  proof cases
    case 1
    with Node.prems(1) show ?thesis by simp
  next
    case 2
    with Node.IH [of c] Node.prems(1) qs show ?thesis by simp
  next
    case 3
    with Node.IH [of c] Node.prems(1) qs show ?thesis by simp
  next
    case 4
    with Node.IH [of c] Node.prems(1) qs show ?thesis by simp
  next
    case 5
    with Node.IH [of c] Node.prems(1) qs show ?thesis by simp
  qed
qed

lemma sample_fits: "fits (rect 0 0 200 200)"
  by (simp add: fits_def overflow_limit_numeral)

text \<open>
  C9. Every tree built by \<^verbatim>\<open>create\<close> and any sequence of \<^verbatim>\<open>insert\<close>, \<^verbatim>\<open>batchInsert\<close> and
  \<^verbatim>\<open>clear\<close> calls has no node of a depth above \<open>maxDepth\<close>; a node at depth \<open>maxDepth\<close>
  is a leaf that \<^verbatim>\<open>insert\<close> does not split; the tree has at most \<open>maxDepth\<close> levels below
  its root, which bounds the recursion of \<^verbatim>\<open>search\<close> and \<^verbatim>\<open>clear\<close>, and \<^verbatim>\<open>insert\<close> can grow
  at most \<open>maxDepth\<close> levels below the root; \<^verbatim>\<open>search\<close> and \<^verbatim>\<open>clear\<close> return a result on it,
  and \<^verbatim>\<open>insert\<close> and \<^verbatim>\<open>batchInsert\<close> return a tree or a failed assertion, never a
  \<^verbatim>\<open>TypeError\<close>. With \<open>maxChildren > 0\<close>, \<open>maxDepth > 0\<close> and a boundary within the bound
  of the numbers, the tree is built and \<^verbatim>\<open>insert\<close> and \<^verbatim>\<open>batchInsert\<close> return a tree. The
  four operations are total functions of the model: the recursion of \<^verbatim>\<open>insert\<close> is proved
  terminating for every node above.
\<close>

theorem recursion_is_bounded_by_maxDepth:
  "(build b mc md cs = Inr T \<longrightarrow>
     (\<forall>n \<in> set (nodes_of T).
        0 \<le> depth n \<and> depth n \<le> maxDepth n \<and> maxDepth n = md \<and>
        (depth n = maxDepth n \<longrightarrow>
           isLeaf n \<and> \<not> isSplittable (addChild n item) \<and>
           insert_item n item = Inr (addChild n item))) \<and>
     int (height_of T) \<le> md \<and> int (levels_left T) \<le> md \<and>
     insert_item T item \<noteq> Inl TypeError \<and>
     batchInsert T items \<noteq> Inl TypeError \<and>
     (\<exists>xs. search T q = Inr xs) \<and>
     (\<exists>T'. clear (Some T) = Some T')) \<and>
   (0 < mc \<and> 0 < md \<and> fits b \<longrightarrow>
     (\<exists>T'. build b mc md cs = Inr T' \<and>
        (\<exists>T''. insert_item T' item = Inr T'') \<and>
        (\<exists>T''. batchInsert T' items = Inr T'')))"
proof -
  have 1: "(\<forall>n \<in> set (nodes_of T).
        0 \<le> depth n \<and> depth n \<le> maxDepth n \<and> maxDepth n = md \<and>
        (depth n = maxDepth n \<longrightarrow>
           isLeaf n \<and> \<not> isSplittable (addChild n item) \<and>
           insert_item n item = Inr (addChild n item))) \<and>
     int (height_of T) \<le> md \<and> int (levels_left T) \<le> md \<and>
     insert_item T item \<noteq> Inl TypeError \<and>
     batchInsert T items \<noteq> Inl TypeError \<and>
     (\<exists>xs. search T q = Inr xs) \<and>
     (\<exists>T'. clear (Some T) = Some T')"
    if built: "build b mc md cs = Inr T"
  proof -
    from build_tracks [OF built] have T: "tracks T (stored cs)" "maxDepth T = md"
      by simp_all
    from T(1) have wf: "well_formed T" and d: "depth T = 0"
      by (simp_all add: tracks_def)
    have nodes: "0 \<le> depth n \<and> depth n \<le> maxDepth n \<and> maxDepth n = md \<and>
          (depth n = maxDepth n \<longrightarrow>
             isLeaf n \<and> \<not> isSplittable (addChild n item) \<and>
             insert_item n item = Inr (addChild n item))"
      if n: "n \<in> set (nodes_of T)" for n
    proof -
      from well_formed_nodes [OF wf n] T(2) have wfn: "well_formed n" and md: "maxDepth n = md"
        by simp_all
      have "isLeaf n \<and> \<not> isSplittable (addChild n item) \<and>
          insert_item n item = Inr (addChild n item)" if eq: "depth n = maxDepth n"
      proof -
        from well_formed_inner_depth [OF wfn] eq have leaf: "isLeaf n" by auto
        from eq have "\<not> isSplittable (addChild n item)"
          by (simp add: isSplittable_def Let_def addChild_def update_children_def)
        with leaf insert_item_at_maxDepth [OF leaf, of item] eq show ?thesis by simp
      qed
      with well_formed_params [OF wfn] md show ?thesis by blast
    qed
    from well_formed_height [OF wf] d T(2)
    have h: "int (height_of T) \<le> md" "int (levels_left T) \<le> md"
      by simp_all
    from insert_no_TypeError [OF wf] have i: "insert_item T item \<noteq> Inl TypeError" .
    from insert_outcome(2) [OF wf, of items]
    have bi: "batchInsert T items \<noteq> Inl TypeError"
      by (auto simp: batchInsert_insert_reduce outcome_ok_def)
    from search_well_formed [OF wf, of q] have s: "\<exists>xs. search T q = Inr xs"
      by blast
    have c: "\<exists>T'. clear (Some T) = Some T'"
      by (simp add: clear_Some)
    from nodes h i bi s c show ?thesis by blast
  qed
  have 2: "\<exists>T'. build b mc md cs = Inr T' \<and>
        (\<exists>T''. insert_item T' item = Inr T'') \<and>
        (\<exists>T''. batchInsert T' items = Inr T'')"
    if pos: "0 < mc" "0 < md" and f: "fits b"
  proof -
    from build_returns [OF pos f, of cs] obtain T' where T': "build b mc md cs = Inr T'"
      by blast
    from build_tracks [OF T'] f have "tracks T' (stored cs)" "all_fit T'"
      by simp_all
    then have wf: "well_formed T'" and fit: "all_fit T'"
      by (simp_all add: tracks_def)
    from insert_returns [OF wf fit, of item] batchInsert_returns [OF wf fit, of items] T'
    show ?thesis by blast
  qed
  from 1 2 show ?thesis by blast
qed

theorem recursion_is_bounded_by_maxDepth_witness:
  "(0::int) < 1 \<and> (0::int) < 1 \<and> fits (rect 0 0 200 200) \<and>
   build (rect 0 0 200 200) 1 1
     [Insert (rect 5 6 1 2), BatchInsert [rect 67 24 1 1, rect 10 10 1 1]] =
     Inr sample_full \<and>
   sample_deep_leaf \<in> set (nodes_of sample_full) \<and>
   depth sample_deep_leaf = maxDepth sample_deep_leaf \<and>
   isLeaf sample_deep_leaf \<and>
   insert_item sample_deep_leaf (rect 20 20 1 1) =
     Inr (addChild sample_deep_leaf (rect 20 20 1 1)) \<and>
   int (height_of sample_full) \<le> 1 \<and>
   (\<exists>T'. insert_item sample_full (rect 20 20 1 1) = Inr T') \<and>
   (\<exists>xs. search sample_full (rect 0 0 50 50) = Inr xs)"
proof -
  note L = recursion_is_bounded_by_maxDepth [of "rect 0 0 200 200" 1 1
    "[Insert (rect 5 6 1 2), BatchInsert [rect 67 24 1 1, rect 10 10 1 1]]"
    sample_full "rect 20 20 1 1" "[]" "rect 0 0 50 50"]
  from L sample_full_built
  have nodes: "\<forall>n \<in> set (nodes_of sample_full).
        0 \<le> depth n \<and> depth n \<le> maxDepth n \<and> maxDepth n = 1 \<and>
        (depth n = maxDepth n \<longrightarrow>
           isLeaf n \<and> \<not> isSplittable (addChild n (rect 20 20 1 1)) \<and>
           insert_item n (rect 20 20 1 1) = Inr (addChild n (rect 20 20 1 1)))"
    and rest: "int (height_of sample_full) \<le> 1"
      "\<exists>xs. search sample_full (rect 0 0 50 50) = Inr xs"
    by blast+
  from L sample_fits obtain T' where T': "build (rect 0 0 200 200) 1 1
      [Insert (rect 5 6 1 2), BatchInsert [rect 67 24 1 1, rect 10 10 1 1]] = Inr T'"
    "\<exists>T''. insert_item T' (rect 20 20 1 1) = Inr T''"
    by auto
  from T' sample_full_built
  have ins: "\<exists>T'. insert_item sample_full (rect 20 20 1 1) = Inr T'"
    by simp
  from nodes sample_deep_leaf_node sample_deep_leaf_depth
  have "isLeaf sample_deep_leaf"
    "insert_item sample_deep_leaf (rect 20 20 1 1) =
       Inr (addChild sample_deep_leaf (rect 20 20 1 1))"
    by blast+
  with rest ins sample_fits sample_full_built sample_deep_leaf_node sample_deep_leaf_depth
  show ?thesis by simp
qed

text \<open>
  C10. For every node and every item \<^verbatim>\<open>determineQuadrant\<close> returns one of the four tags,
  never the empty string. In every tree built by \<^verbatim>\<open>create\<close> and any sequence of calls,
  every node that is not a leaf has its four quadrants populated, so \<^verbatim>\<open>insert\<close> finds a
  node under the tag it looks up and never fails with a \<^verbatim>\<open>TypeError\<close>; and where the
  boundaries of the tree are within the bound of the numbers, \<^verbatim>\<open>insert\<close> returns a tree.
\<close>

theorem determineQuadrant_never_falls_through:
  "determineQuadrant n item \<in> {''top-left'', ''top-right'', ''bottom-left'', ''bottom-right''} \<and>
   determineQuadrant n item \<noteq> [] \<and>
   (build b mc md cs = Inr T \<longrightarrow>
      (\<forall>m \<in> set (nodes_of T). \<not> isLeaf m \<longrightarrow>
         (\<exists>c1 c2 c3 c4. quadrants m = Quads (Some c1) (Some c2) (Some c3) (Some c4)) \<and>
         (\<exists>c. qget (quadrants m) (determineQuadrant m item) = Some c) \<and>
         insert_item m item \<noteq> Inl TypeError \<and>
         (fits b \<longrightarrow> (\<exists>m'. insert_item m item = Inr m'))))"
proof -
  have 1: "determineQuadrant n item \<in>
      {''top-left'', ''top-right'', ''bottom-left'', ''bottom-right''}"
    using determineQuadrant_cases [of n item] by blast
  then have 2: "determineQuadrant n item \<noteq> []" by auto
  have 3: "\<forall>m \<in> set (nodes_of T). \<not> isLeaf m \<longrightarrow>
         (\<exists>c1 c2 c3 c4. quadrants m = Quads (Some c1) (Some c2) (Some c3) (Some c4)) \<and>
         (\<exists>c. qget (quadrants m) (determineQuadrant m item) = Some c) \<and>
         insert_item m item \<noteq> Inl TypeError \<and>
         (fits b \<longrightarrow> (\<exists>m'. insert_item m item = Inr m'))"
    if built: "build b mc md cs = Inr T"
  proof -
    from build_tracks [OF built] have T: "tracks T (stored cs)" "fits b \<longrightarrow> all_fit T"
      by simp_all
    from T(1) have wf: "well_formed T" by (simp add: tracks_def)
    have "(\<exists>c1 c2 c3 c4. quadrants m = Quads (Some c1) (Some c2) (Some c3) (Some c4)) \<and>
           (\<exists>c. qget (quadrants m) (determineQuadrant m item) = Some c) \<and>
           insert_item m item \<noteq> Inl TypeError \<and>
           (fits b \<longrightarrow> (\<exists>m'. insert_item m item = Inr m'))"
      if m: "m \<in> set (nodes_of T)" and inner: "\<not> isLeaf m" for m
    proof -
      from well_formed_nodes [OF wf m] have wfm: "well_formed m" by simp
      from well_formed_inner [OF wfm inner]
      have "\<exists>c1 c2 c3 c4. quadrants m = Quads (Some c1) (Some c2) (Some c3) (Some c4)"
        by blast
      moreover from well_formed_qget [OF wfm inner determineQuadrant_cases]
      have "\<exists>c. qget (quadrants m) (determineQuadrant m item) = Some c"
        by blast
      moreover from insert_no_TypeError [OF wfm]
      have "insert_item m item \<noteq> Inl TypeError" .
      moreover have "\<exists>m'. insert_item m item = Inr m'" if "fits b"
      proof -
        from that T(2) all_fit_nodes [OF _ m] have "all_fit m" by blast
        from insert_returns [OF wfm this] show ?thesis .
      qed
      ultimately show ?thesis by blast
    qed
    then show ?thesis by blast
  qed
  from 1 2 3 show ?thesis by blast
qed

theorem determineQuadrant_never_falls_through_witness:
  "build (rect 0 0 200 200) 1 1
     [Insert (rect 5 6 1 2), BatchInsert [rect 67 24 1 1, rect 10 10 1 1]] =
     Inr sample_full \<and>
   fits (rect 0 0 200 200) \<and>
   sample_full \<in> set (nodes_of sample_full) \<and> \<not> isLeaf sample_full \<and>
   determineQuadrant sample_full (rect 150 20 1 1) = ''top-right'' \<and>
   (\<exists>c. qget (quadrants sample_full) (determineQuadrant sample_full (rect 150 20 1 1)) =
      Some c) \<and>
   (\<exists>m'. insert_item sample_full (rect 150 20 1 1) = Inr m')"
proof -
  note L = determineQuadrant_never_falls_through [of sample_full "rect 150 20 1 1"
    "rect 0 0 200 200" 1 1
    "[Insert (rect 5 6 1 2), BatchInsert [rect 67 24 1 1, rect 10 10 1 1]]" sample_full]
  from L sample_full_built
  have nodes: "\<forall>m \<in> set (nodes_of sample_full). \<not> isLeaf m \<longrightarrow>
         (\<exists>c1 c2 c3 c4. quadrants m = Quads (Some c1) (Some c2) (Some c3) (Some c4)) \<and>
         (\<exists>c. qget (quadrants m) (determineQuadrant m (rect 150 20 1 1)) = Some c) \<and>
         insert_item m (rect 150 20 1 1) \<noteq> Inl TypeError \<and>
         (fits (rect 0 0 200 200) \<longrightarrow> (\<exists>m'. insert_item m (rect 150 20 1 1) = Inr m'))"
    by blast
  have dq: "determineQuadrant sample_full (rect 150 20 1 1) = ''top-right''"
    by (simp add: determineQuadrant_def sample_full_def)
  from nodes sample_full_root sample_full_inner sample_fits
  have "\<exists>c. qget (quadrants sample_full) (determineQuadrant sample_full (rect 150 20 1 1)) =
      Some c"
    "\<exists>m'. insert_item sample_full (rect 150 20 1 1) = Inr m'"
    by blast+
  with dq sample_full_built sample_full_root sample_full_inner sample_fits
  show ?thesis by simp
qed


section \<open>Split geometry\<close>

text \<open>
  C2. Splitting a node with boundary \<open>(x, y, w, h)\<close> should give four sub-nodes of width
  \<open>w / 2\<close> and height \<open>h / 2\<close> that tile the boundary. On the node with boundary
  \<open>(0, 0, 200, 100)\<close> the sub-nodes have width \<open>50\<close> and height \<open>100\<close>: the half
  height is passed as the width and the half width as the height. The top-left and the
  bottom-left sub-nodes overlap, the strip from \<open>x = 50\<close> to \<open>x = 100\<close> is not covered,
  and the two bottom sub-nodes reach below the parent.
\<close>

theorem split_swaps_width_and_height:
  "split (Node (rect 0 0 200 100) 4 4 0 (Quads None None None None) [] []) =
     Inr (Node (rect 0 0 200 100) 4 4 0
       (Quads
         (Some (Node (rect 0 0 50 100) 4 4 1 (Quads None None None None) [] []))
         (Some (Node (rect 100 0 50 100) 4 4 1 (Quads None None None None) [] []))
         (Some (Node (rect 0 50 50 100) 4 4 1 (Quads None None None None) [] []))
         (Some (Node (rect 100 50 50 100) 4 4 1 (Quads None None None None) [] [])))
       [] [])"
  by (simp add: split_def node_def boundary_def position_def is_number_def
        overflow_limit_numeral update_quadrants_def qset_def)

section \<open>batchInsert\<close>

lemma foldl_insert_after_Inl: "foldl insert_after (Inl e) items = Inl e"
  by (induction items) (simp_all add: insert_after_def)

text \<open>
  C6. \<^verbatim>\<open>batchInsert(n, [i1, ..., ik])\<close> is the left fold of \<^verbatim>\<open>insert\<close> over the items: the
  same result, tree or failure, as one \<^verbatim>\<open>insert\<close> call per item in order.
\<close>

theorem batchInsert_is_sequential_inserts:
  "batchInsert n items = sequential_inserts n items"
proof (induction items arbitrary: n)
  case Nil
  show ?case by (simp add: sequential_inserts_def)
next
  case (Cons i items)
  show ?case
  proof (cases "insert_item n i")
    case (Inl e)
    then show ?thesis
      by (simp add: sequential_inserts_def insert_after_def foldl_insert_after_Inl)
  next
    case (Inr n')
    with Cons.IH [of n'] show ?thesis
      by (simp add: sequential_inserts_def insert_after_def)
  qed
qed

end
